theory Spec2Isabelle
  imports Main "HOL-Library.Multiset"
begin

section \<open>The per-item scoring function \<^verbatim>\<open>get_eval_score\<close>\<close>

text \<open>
  Notebook 02 scores one sample with
  \<^verbatim>\<open>
  async def get_eval_score(sample):
      prompt = EVALUATION_PROMPT_TEMPLATE.format(
          ..., question=sample["question"], context=sample["context"],
          answer=sample["answer"])
      response = await client.chat.completions.create(...)
      results = response.choices[0].message.content
      return {**sample, **json.loads(results)}
  \<close>
  A Python value that can sit in a sample or come out of \<^verbatim>\<open>json.loads\<close> is a
  \<open>json\<close>. An object lists its members in document order, a repeated name included;
  a number with a fraction or exponent is kept as its literal, since nothing here
  computes with it.
\<close>

datatype json =
    JNull
  | JBool bool
  | JInt int
  | JFloat string
  | JString string
  | JArray "json list"
  | JObject "(string \<times> json) list"

text \<open>A sample is a Python dict with string keys.\<close>

type_synonym sample = "string \<rightharpoonup> json"

text \<open>The exceptions the two functions can raise.\<close>

datatype error =
    KeyError string
  | ClientError string
  | JSONDecodeError
  | TypeError

text \<open>
  The dict \<^verbatim>\<open>json.loads\<close> builds from an object: of a repeated name the last
  member is kept.
\<close>

definition dict_of :: "(string \<times> json) list \<Rightarrow> sample" where
  "dict_of members = map_of (rev members)"

text \<open>
  Two collaborators are outside the repository and are parameters of the model:
  \<^item> \<open>judge q c a\<close> is the chat-completion request for the prompt rendered from the
    question, context and answer: \<open>Inl e\<close> when the request (or reading
    \<^verbatim>\<open>choices[0].message.content\<close>) raises, \<open>Inr text\<close> the content otherwise
    (a reply with no text content makes \<^verbatim>\<open>json.loads\<close> raise, which is an
    \<open>Inl\<close> here as well);
  \<^item> \<open>loads text\<close> is \<^verbatim>\<open>json.loads\<close>: \<open>None\<close> when the text is not valid JSON.

  The keyword arguments of \<^verbatim>\<open>format\<close> are evaluated left to right, so a missing
  \<^verbatim>\<open>"question"\<close> raises before a missing \<^verbatim>\<open>"context"\<close>. Unpacking with
  \<^verbatim>\<open>**\<close> needs a mapping: any other JSON value raises \<^verbatim>\<open>TypeError\<close>. In the
  dict display the later unpacking overwrites the earlier one.
\<close>

definition get_eval_score ::
  "(json \<Rightarrow> json \<Rightarrow> json \<Rightarrow> error + string) \<Rightarrow> (string \<Rightarrow> json option) \<Rightarrow>
     sample \<Rightarrow> error + sample" where
  "get_eval_score judge loads sample =
     (case sample ''question'' of
        None \<Rightarrow> Inl (KeyError ''question'')
      | Some q \<Rightarrow>
     (case sample ''context'' of
        None \<Rightarrow> Inl (KeyError ''context'')
      | Some c \<Rightarrow>
     (case sample ''answer'' of
        None \<Rightarrow> Inl (KeyError ''answer'')
      | Some a \<Rightarrow>
     (case judge q c a of
        Inl e \<Rightarrow> Inl e
      | Inr results \<Rightarrow>
     (case loads results of
        None \<Rightarrow> Inl JSONDecodeError
      | Some (JObject members) \<Rightarrow> Inr (sample ++ dict_of members)
      | Some _ \<Rightarrow> Inl TypeError)))))"

section \<open>The bounded concurrent scorer \<^verbatim>\<open>limited_get_score\<close>\<close>

text \<open>
  \<^verbatim>\<open>
  sem = asyncio.Semaphore(5)

  async def limited_get_score(dataset):
      async def gen(sample):
          async with sem:
              res = await get_eval_score(sample)
              progress_bar.update(1)
              return res

      progress_bar = tqdm_asyncio(total=len(dataset), desc="Scoring", unit="sample")
      tasks = [gen(text) for text in dataset]
      responses = await tqdm_asyncio.gather(*tasks)
      progress_bar.close()
      return responses
  \<close>
  The tasks run on one event loop and give up control only at an \<^verbatim>\<open>await\<close> that
  blocks: waiting for a permit, and waiting for the scoring call. So a run is a sequence
  of atomic events, and the scheduler picks which enabled event comes next.

  A task is \<open>Waiting\<close> at \<^verbatim>\<open>async with sem\<close>, \<open>Running\<close> while it holds a permit
  and awaits \<^verbatim>\<open>get_eval_score\<close> (both carry the sample the coroutine was created
  with), and then \<open>Done\<close> with its result or \<open>Failed\<close> with its exception.
\<close>

datatype ('a, 'b) status =
    Waiting 'a
  | Running 'a
  | Done 'b
  | Failed error

fun is_Waiting :: "('a, 'b) status \<Rightarrow> bool" where
  "is_Waiting (Waiting x) = True"
| "is_Waiting _ = False"

fun is_Running :: "('a, 'b) status \<Rightarrow> bool" where
  "is_Running (Running x) = True"
| "is_Running _ = False"

fun is_Done :: "('a, 'b) status \<Rightarrow> bool" where
  "is_Done (Done r) = True"
| "is_Done _ = False"

fun is_Failed :: "('a, 'b) status \<Rightarrow> bool" where
  "is_Failed (Failed e) = True"
| "is_Failed _ = False"

text \<open>
  The state of one call of \<^verbatim>\<open>limited_get_score\<close>: the caller's list, the
  semaphore's counter \<^verbatim>\<open>sem._value\<close>, the tasks in submission order, the
  progress bar's counter \<^verbatim>\<open>progress_bar.n\<close>, whether \<^verbatim>\<open>progress_bar.close()\<close>
  has run, and how the call ended (\<open>None\<close> while it awaits \<^verbatim>\<open>gather\<close>, \<open>Inl e\<close>
  when it raised \<open>e\<close>, \<open>Inr rs\<close> when it returned \<open>rs\<close>).
\<close>

record ('a, 'b) state =
  dataset :: "'a list"
  sem :: nat
  tasks :: "('a, 'b) status list"
  progress :: nat
  closed :: bool
  outcome :: "(error + 'b list) option"

text \<open>
  \<^verbatim>\<open>Acquire i\<close>: task \<open>i\<close> enters \<^verbatim>\<open>async with sem\<close>, possible when the counter is
  positive. \<^verbatim>\<open>Complete i\<close>: the scoring call of task \<open>i\<close> finishes; the rest of the
  task has no blocking \<^verbatim>\<open>await\<close>, so the progress update (on success only) and the
  release of the permit by \<^verbatim>\<open>__aexit__\<close> (on both exits) belong to the same event.
  \<^verbatim>\<open>Return\<close>: \<^verbatim>\<open>gather\<close> has every result; the bar is closed and the list
  returned.

  The semaphore is its counter: \<^verbatim>\<open>asyncio.Semaphore\<close> wakes its waiters in the
  order they arrived, and the model lets any waiting task take a free permit, which
  covers that order. A running call can always complete, with the result or exception
  of the scoring function.
\<close>

datatype event = Acquire nat | Complete nat | Return

fun the_result :: "('a, 'b) status \<Rightarrow> 'b option" where
  "the_result (Done r) = Some r"
| "the_result _ = None"

text \<open>
  \<^verbatim>\<open>tqdm_asyncio.gather\<close> awaits the tasks in completion order and re-raises the
  first exception it meets; the line after it is then never reached, and the other
  tasks stay scheduled on the loop. With no exception it returns the results sorted by
  submission index.
\<close>

fun step ::
  "('a \<Rightarrow> error + 'b) \<Rightarrow> ('a, 'b) state \<Rightarrow> event \<Rightarrow> ('a, 'b) state option" where
  "step score s (Acquire i) =
     (if i < length (tasks s) \<and> 0 < sem s
      then (case tasks s ! i of
              Waiting sample \<Rightarrow>
                Some (s\<lparr>sem := sem s - 1, tasks := (tasks s)[i := Running sample]\<rparr>)
            | _ \<Rightarrow> None)
      else None)"
| "step score s (Complete i) =
     (if i < length (tasks s)
      then (case tasks s ! i of
              Running sample \<Rightarrow>
                (case score sample of
                   Inr res \<Rightarrow>
                     Some (s\<lparr>progress := progress s + 1,
                             sem := sem s + 1,
                             tasks := (tasks s)[i := Done res]\<rparr>)
                 | Inl e \<Rightarrow>
                     Some (s\<lparr>sem := sem s + 1,
                             tasks := (tasks s)[i := Failed e],
                             outcome := (case outcome s of
                                           None \<Rightarrow> Some (Inl e)
                                         | Some r \<Rightarrow> Some r)\<rparr>))
            | _ \<Rightarrow> None)
      else None)"
| "step score s Return =
     (if outcome s = None \<and> list_all is_Done (tasks s)
      then Some (s\<lparr>closed := True,
                   outcome := Some (Inr (List.map_filter the_result (tasks s)))\<rparr>)
      else None)"

text \<open>A schedule is the list of events in the order the loop ran them.\<close>

fun run ::
  "('a \<Rightarrow> error + 'b) \<Rightarrow> ('a, 'b) state \<Rightarrow> event list \<Rightarrow> ('a, 'b) state option" where
  "run score s [] = Some s"
| "run score s (ev # evs) =
     (case step score s ev of None \<Rightarrow> None | Some s' \<Rightarrow> run score s' evs)"

text \<open>
  The state when \<^verbatim>\<open>gather\<close> has scheduled the tasks: a semaphore of \<open>c\<close> permits,
  one waiting task per item, a fresh progress bar.
\<close>

definition init :: "nat \<Rightarrow> 'a list \<Rightarrow> ('a, 'b) state" where
  "init c ds =
     \<lparr>dataset = ds, sem = c, tasks = map Waiting ds,
      progress = 0, closed = False, outcome = None\<rparr>"

text \<open>The source's semaphore: \<^verbatim>\<open>sem = asyncio.Semaphore(5)\<close>.\<close>

definition max_concurrency :: nat where
  "max_concurrency = 5"

text \<open>
  \<^verbatim>\<open>limited_get_score\<close> under a schedule: the state the schedule leads to, \<open>None\<close>
  when the schedule names an event that cannot happen.
\<close>

definition limited_get_score ::
  "(json \<Rightarrow> json \<Rightarrow> json \<Rightarrow> error + string) \<Rightarrow> (string \<Rightarrow> json option) \<Rightarrow>
     sample list \<Rightarrow> event list \<Rightarrow> (sample, sample) state option" where
  "limited_get_score judge loads ds evs =
     run (get_eval_score judge loads) (init max_concurrency ds) evs"

text \<open>The scoring calls in flight, and the events a state allows.\<close>

definition in_flight :: "('a, 'b) state \<Rightarrow> nat" where
  "in_flight s = length (filter is_Running (tasks s))"

definition enabled :: "('a, 'b) state \<Rightarrow> event list" where
  "enabled s =
     (if 0 < sem s
      then map Acquire (filter (\<lambda>i. is_Waiting (tasks s ! i)) [0..<length (tasks s)])
      else [])
     @ map Complete (filter (\<lambda>i. is_Running (tasks s ! i)) [0..<length (tasks s)])
     @ (if outcome s = None \<and> list_all is_Done (tasks s) then [Return] else [])"

text \<open>A run is over when nothing more can happen.\<close>

definition quiescent :: "('a, 'b) state \<Rightarrow> bool" where
  "quiescent s = (enabled s = [])"

section \<open>The two functions on a store of dict objects\<close>

text \<open>
  A Python dict is an object, and what \<^verbatim>\<open>dataset\<close> holds and \<^verbatim>\<open>get_eval_score\<close>
  receives is a reference to one: code could change the caller's dict in place. To state
  that the source does not, the dicts live in a store, a list of objects, and a
  reference is a position in it; a reference the program holds always points into the
  store.

  \<^verbatim>\<open>sample["question"]\<close> reads the object \<open>h ! sample\<close>. The dict display
  \<^verbatim>\<open>{**sample, **json.loads(results)}\<close> builds a new dict: the store grows by one
  object and the reference to it is returned. The source has no assignment to a key of
  \<^verbatim>\<open>sample\<close> and calls no method that changes it; a merge in place would be
  \<open>h[sample := \<dots>]\<close>, returning \<open>sample\<close>. The dict \<^verbatim>\<open>json.loads\<close> returns is a
  temporary that no reference survives to, and is not kept in the store. The cases are
  those of \<open>get_eval_score\<close>, in the same order.
\<close>

type_synonym ref = nat

type_synonym heap = "sample list"

definition get_eval_score_heap ::
  "(json \<Rightarrow> json \<Rightarrow> json \<Rightarrow> error + string) \<Rightarrow> (string \<Rightarrow> json option) \<Rightarrow>
     heap \<Rightarrow> ref \<Rightarrow> (error + ref) \<times> heap" where
  "get_eval_score_heap judge loads h sample =
     (case (h ! sample) ''question'' of
        None \<Rightarrow> (Inl (KeyError ''question''), h)
      | Some q \<Rightarrow>
     (case (h ! sample) ''context'' of
        None \<Rightarrow> (Inl (KeyError ''context''), h)
      | Some c \<Rightarrow>
     (case (h ! sample) ''answer'' of
        None \<Rightarrow> (Inl (KeyError ''answer''), h)
      | Some a \<Rightarrow>
     (case judge q c a of
        Inl e \<Rightarrow> (Inl e, h)
      | Inr results \<Rightarrow>
     (case loads results of
        None \<Rightarrow> (Inl JSONDecodeError, h)
      | Some (JObject members) \<Rightarrow> (Inr (length h), h @ [(h ! sample) ++ dict_of members])
      | Some _ \<Rightarrow> (Inl TypeError, h))))))"

text \<open>
  The batch on the store. \<^verbatim>\<open>limited_get_score\<close> holds references only: it builds one
  coroutine per element of \<^verbatim>\<open>dataset\<close>, hands the element to \<^verbatim>\<open>get_eval_score\<close>,
  updates the bar and returns the list \<^verbatim>\<open>gather\<close> gives it. So an event is the event of
  \<open>step\<close>, with the scoring call reading the store as it is when the call completes; the
  store after a \<open>Complete\<close> is the one that call leaves, and the other events leave the
  store as it is.
\<close>

record hstate =
  heap :: heap
  batch :: "(ref, ref) state"

definition step_heap ::
  "(json \<Rightarrow> json \<Rightarrow> json \<Rightarrow> error + string) \<Rightarrow> (string \<Rightarrow> json option) \<Rightarrow>
     hstate \<Rightarrow> event \<Rightarrow> hstate option" where
  "step_heap judge loads hs ev =
     (case step (\<lambda>sample. fst (get_eval_score_heap judge loads (heap hs) sample))
             (batch hs) ev of
        None \<Rightarrow> None
      | Some s' \<Rightarrow>
          Some \<lparr>heap = (case ev of
                          Complete i \<Rightarrow>
                            (case tasks (batch hs) ! i of
                               Running sample \<Rightarrow>
                                 snd (get_eval_score_heap judge loads (heap hs) sample)
                             | _ \<Rightarrow> heap hs)
                        | _ \<Rightarrow> heap hs),
                batch = s'\<rparr>)"

fun run_heap ::
  "(json \<Rightarrow> json \<Rightarrow> json \<Rightarrow> error + string) \<Rightarrow> (string \<Rightarrow> json option) \<Rightarrow>
     hstate \<Rightarrow> event list \<Rightarrow> hstate option" where
  "run_heap judge loads hs [] = Some hs"
| "run_heap judge loads hs (ev # evs) =
     (case step_heap judge loads hs ev of
        None \<Rightarrow> None
      | Some hs' \<Rightarrow> run_heap judge loads hs' evs)"

text \<open>
  \<^verbatim>\<open>limited_get_score\<close> on a store \<open>h\<close>, for a dataset given as references into it.
\<close>

definition limited_get_score_heap ::
  "(json \<Rightarrow> json \<Rightarrow> json \<Rightarrow> error + string) \<Rightarrow> (string \<Rightarrow> json option) \<Rightarrow>
     heap \<Rightarrow> ref list \<Rightarrow> event list \<Rightarrow> hstate option" where
  "limited_get_score_heap judge loads h ds evs =
     run_heap judge loads \<lparr>heap = h, batch = init max_concurrency ds\<rparr> evs"

section \<open>Notions used in the proofs\<close>

text \<open>
  \<open>tracks score x t\<close>: \<open>t\<close> is a state of the task created for item \<open>x\<close>. It still
  holds \<open>x\<close> itself, or it ended the way \<open>score x\<close> ends.
\<close>

fun tracks :: "('a \<Rightarrow> error + 'b) \<Rightarrow> 'a \<Rightarrow> ('a, 'b) status \<Rightarrow> bool" where
  "tracks score x (Waiting y) = (y = x)"
| "tracks score x (Running y) = (y = x)"
| "tracks score x (Done r) = (score x = Inr r)"
| "tracks score x (Failed e) = (score x = Inl e)"

text \<open>
  What the end of the call says about the tasks: while \<^verbatim>\<open>gather\<close> is awaited no task
  has failed and the bar is open; an exception raised is that of a failed task and leaves
  the bar open; a returned list is the results of the tasks, all done, and the bar is
  closed.
\<close>

definition ends_well :: "('a, 'b) state \<Rightarrow> bool" where
  "ends_well s =
     (case outcome s of
        None \<Rightarrow> \<not> closed s \<and> \<not> list_ex is_Failed (tasks s)
      | Some (Inl e) \<Rightarrow> \<not> closed s \<and> Failed e \<in> set (tasks s)
      | Some (Inr rs) \<Rightarrow>
          closed s \<and> list_all is_Done (tasks s) \<and> rs = List.map_filter the_result (tasks s))"

text \<open>
  The invariant of a run started from \<open>init c ds\<close>: the caller's list is \<open>ds\<close>, free
  permits and calls in flight add up to \<open>c\<close>, the progress counter counts the tasks done,
  task \<open>i\<close> tracks item \<open>i\<close>, and the end of the call fits the tasks.
\<close>

definition consistent ::
  "('a \<Rightarrow> error + 'b) \<Rightarrow> nat \<Rightarrow> 'a list \<Rightarrow> ('a, 'b) state \<Rightarrow> bool" where
  "consistent score c ds s =
     (dataset s = ds \<and> sem s + in_flight s = c \<and>
      progress s = length (filter is_Done (tasks s)) \<and>
      list_all2 (tracks score) ds (tasks s) \<and> ends_well s)"

text \<open>
  A bound on the events still to come: two for a waiting task, one for a running task,
  one for the end of the call. Every event lowers it.
\<close>

definition remaining :: "('a, 'b) state \<Rightarrow> nat" where
  "remaining s =
     2 * length (filter is_Waiting (tasks s)) + length (filter is_Running (tasks s))
       + (if outcome s = None then 1 else 0)"

text \<open>
  Replacing every item \<open>x\<close> by \<open>f x\<close>, in a task and in a state. Results, exceptions,
  the semaphore and the progress bar are left as they are.
\<close>

fun relabel_task :: "('a \<Rightarrow> 'c) \<Rightarrow> ('a, 'b) status \<Rightarrow> ('c, 'b) status" where
  "relabel_task f (Waiting x) = Waiting (f x)"
| "relabel_task f (Running x) = Running (f x)"
| "relabel_task f (Done r) = Done r"
| "relabel_task f (Failed e) = Failed e"

definition relabel :: "('a \<Rightarrow> 'c) \<Rightarrow> ('a, 'b) state \<Rightarrow> ('c, 'b) state" where
  "relabel f s =
     \<lparr>dataset = map f (dataset s), sem = sem s, tasks = map (relabel_task f) (tasks s),
      progress = progress s, closed = closed s, outcome = outcome s\<rparr>"

text \<open>
  \<open>tracks_heap judge loads h0 h x t\<close>: \<open>t\<close> is a state of the task created for the
  item at \<open>x\<close> in a run that started on the store \<open>h0\<close> and has reached the store
  \<open>h\<close>. It still holds the reference \<open>x\<close>, or it failed the way scoring the original
  object fails, or it is done with a reference to an object that \<open>h0\<close> did not have,
  whose contents are the score result of the original object.
\<close>

fun tracks_heap ::
  "(json \<Rightarrow> json \<Rightarrow> json \<Rightarrow> error + string) \<Rightarrow> (string \<Rightarrow> json option) \<Rightarrow>
     heap \<Rightarrow> heap \<Rightarrow> ref \<Rightarrow> (ref, ref) status \<Rightarrow> bool" where
  "tracks_heap judge loads h0 h x (Waiting y) = (y = x)"
| "tracks_heap judge loads h0 h x (Running y) = (y = x)"
| "tracks_heap judge loads h0 h x (Done r) =
     (length h0 \<le> r \<and> r < length h \<and> get_eval_score judge loads (h0 ! x) = Inr (h ! r))"
| "tracks_heap judge loads h0 h x (Failed e) = (get_eval_score judge loads (h0 ! x) = Inl e)"

text \<open>
  The invariant of a run on the store started from \<open>h0\<close> and the references \<open>ds\<close>: the
  store still begins with \<open>h0\<close>, object for object; the caller's list is \<open>ds\<close>; task
  \<open>i\<close> tracks the item at \<open>ds ! i\<close>.
\<close>

definition frame ::
  "(json \<Rightarrow> json \<Rightarrow> json \<Rightarrow> error + string) \<Rightarrow> (string \<Rightarrow> json option) \<Rightarrow>
     heap \<Rightarrow> ref list \<Rightarrow> hstate \<Rightarrow> bool" where
  "frame judge loads h0 ds hs =
     (take (length h0) (heap hs) = h0 \<and> length h0 \<le> length (heap hs) \<and>
      dataset (batch hs) = ds \<and>
      list_all2 (tracks_heap judge loads h0 (heap hs)) ds (tasks (batch hs)))"

text \<open>
  Reading a state on the store as a state on values: every reference replaced by the
  object it points to. \<open>refs_in\<close> says that every reference of a state points into its
  store.
\<close>

fun deref_task :: "heap \<Rightarrow> (ref, ref) status \<Rightarrow> (sample, sample) status" where
  "deref_task h (Waiting r) = Waiting (h ! r)"
| "deref_task h (Running r) = Running (h ! r)"
| "deref_task h (Done r) = Done (h ! r)"
| "deref_task h (Failed e) = Failed e"

definition deref :: "hstate \<Rightarrow> (sample, sample) state" where
  "deref hs =
     \<lparr>dataset = map ((!) (heap hs)) (dataset (batch hs)),
      sem = sem (batch hs),
      tasks = map (deref_task (heap hs)) (tasks (batch hs)),
      progress = progress (batch hs),
      closed = closed (batch hs),
      outcome = map_option (map_sum id (map ((!) (heap hs)))) (outcome (batch hs))\<rparr>"

fun task_in :: "heap \<Rightarrow> (ref, ref) status \<Rightarrow> bool" where
  "task_in h (Waiting r) = (r < length h)"
| "task_in h (Running r) = (r < length h)"
| "task_in h (Done r) = (r < length h)"
| "task_in h (Failed e) = True"

definition refs_in :: "hstate \<Rightarrow> bool" where
  "refs_in hs =
     (list_all (\<lambda>r. r < length (heap hs)) (dataset (batch hs)) \<and>
      list_all (task_in (heap hs)) (tasks (batch hs)) \<and>
      (case outcome (batch hs) of
         Some (Inr rs) \<Rightarrow> list_all (\<lambda>r. r < length (heap hs)) rs
       | _ \<Rightarrow> True))"

section \<open>Concrete samples, judges and decoders\<close>

text \<open>
  Inputs for running the model: the sample and the judge output of the spec's merge
  example, a second sample, a judge that always replies with a given text, a judge whose
  request fails for one question, and a decoder that knows the listed texts and takes
  every other text for invalid JSON.
\<close>

definition sample_Q :: sample where
  "sample_Q = [''question'' \<mapsto> JString ''Q'', ''context'' \<mapsto> JString ''C'',
               ''answer'' \<mapsto> JString ''A'']"

definition sample_R :: sample where
  "sample_R = [''question'' \<mapsto> JString ''R'', ''context'' \<mapsto> JString ''C'',
               ''answer'' \<mapsto> JString ''B'']"

definition reply_3 :: string where
  \<open>reply_3 = ''{"reasoning": "...", "total_score": 3}''\<close>

definition fields_3 :: "(string \<times> json) list" where
  "fields_3 = [(''reasoning'', JString ''...''), (''total_score'', JInt 3)]"

definition judge_replying :: "string \<Rightarrow> json \<Rightarrow> json \<Rightarrow> json \<Rightarrow> error + string" where
  "judge_replying content q c a = Inr content"

definition judge_failing_on ::
  "json \<Rightarrow> string \<Rightarrow> json \<Rightarrow> json \<Rightarrow> json \<Rightarrow> error + string" where
  "judge_failing_on bad content q c a =
     (if q = bad then Inl (ClientError ''timeout'') else Inr content)"

definition decoder :: "(string \<times> json) list \<Rightarrow> string \<Rightarrow> json option" where
  "decoder known content = map_of known content"

definition reply_ok :: string where
  \<open>reply_ok = ''{"reasoning": "ok"}''\<close>

section \<open>Properties\<close>

lemma count_update:
  "i < length xs \<Longrightarrow>
     length (filter P (xs[i := y])) + (if P (xs ! i) then 1 else 0)
       = length (filter P xs) + (if P y then 1 else 0)"
proof (induction xs arbitrary: i)
  case Nil
  then show ?case by simp
next
  case (Cons a xs)
  show ?case
  proof (cases i)
    case 0
    then show ?thesis by simp
  next
    case (Suc j)
    with Cons.prems have "j < length xs" by simp
    from Cons.IH [OF this] Suc show ?thesis by simp
  qed
qed

lemma stepE:
  assumes "step score s ev = Some s'"
  obtains
    (acquire) i x where "ev = Acquire i" "i < length (tasks s)" "0 < sem s"
      "tasks s ! i = Waiting x"
      "s' = s\<lparr>sem := sem s - 1, tasks := (tasks s)[i := Running x]\<rparr>"
  | (success) i x r where "ev = Complete i" "i < length (tasks s)"
      "tasks s ! i = Running x" "score x = Inr r"
      "s' = s\<lparr>progress := progress s + 1, sem := sem s + 1,
              tasks := (tasks s)[i := Done r]\<rparr>"
  | (failure) i x e where "ev = Complete i" "i < length (tasks s)"
      "tasks s ! i = Running x" "score x = Inl e"
      "s' = s\<lparr>sem := sem s + 1, tasks := (tasks s)[i := Failed e],
              outcome := (case outcome s of None \<Rightarrow> Some (Inl e) | Some r \<Rightarrow> Some r)\<rparr>"
  | (return) "ev = Return" "outcome s = None" "list_all is_Done (tasks s)"
      "s' = s\<lparr>closed := True,
              outcome := Some (Inr (List.map_filter the_result (tasks s)))\<rparr>"
proof (cases ev)
  case (Acquire i)
  with assms show ?thesis
    by (auto split: if_splits status.splits intro: acquire)
next
  case (Complete i)
  with assms show ?thesis
    by (auto split: if_splits status.splits sum.splits intro: success failure)
next
  case Return
  with assms show ?thesis
    by (auto split: if_splits intro: return)
qed

lemma run_append:
  "run score s (es @ fs) =
     (case run score s es of None \<Rightarrow> None | Some s' \<Rightarrow> run score s' fs)"
  by (induction es arbitrary: s) (auto split: option.splits)

lemma run_invariant:
  assumes "run score s evs = Some s'" and "P s"
    and "\<And>t ev t'. P t \<Longrightarrow> step score t ev = Some t' \<Longrightarrow> P t'"
  shows "P s'"
  using assms(1,2)
proof (induction evs arbitrary: s)
  case Nil
  then show ?case by simp
next
  case (Cons ev evs)
  then show ?case by (auto split: option.splits dest: assms(3))
qed

lemma set_update_keeps:
  "z \<in> set xs \<Longrightarrow> z \<noteq> xs ! i \<Longrightarrow> z \<in> set (xs[i := y])"
  by (metis in_set_conv_nth length_list_update nth_list_update_neq)

lemma set_update_cases:
  "z \<in> set (xs[i := y]) \<Longrightarrow> z = y \<or> z \<in> set xs"
  using set_update_subset_insert [of xs i y] by auto

lemma all_Done_nth: "list_all is_Done xs \<Longrightarrow> i < length xs \<Longrightarrow> is_Done (xs ! i)"
  by (simp add: list_all_length)

lemma list_all2_update_right:
  "list_all2 P xs ys \<Longrightarrow> P (xs ! i) y \<Longrightarrow> list_all2 P xs (ys[i := y])"
  using list_all2_update_cong [of P xs ys "xs ! i" y i] by simp

lemma consistent_init: "consistent score c ds (init c ds)"
proof -
  have "filter is_Running (map Waiting ds) = ([] :: ('a, 'b) status list)"
    by (induction ds) auto
  moreover have "filter is_Done (map Waiting ds) = ([] :: ('a, 'b) status list)"
    by (induction ds) auto
  moreover have "list_all2 (tracks score) ds (map Waiting ds)"
    by (simp add: list_all2_conv_all_nth)
  moreover have "\<not> list_ex is_Failed (map Waiting ds :: ('a, 'b) status list)"
    by (induction ds) auto
  ultimately show ?thesis
    by (simp add: consistent_def init_def in_flight_def ends_well_def)
qed

lemma ends_well_step:
  assumes "step score s ev = Some s'" and "ends_well s"
  shows "ends_well s'"
  using assms(1)
proof (cases rule: stepE)
  case (acquire i x)
  have nd: "\<not> list_all is_Done (tasks s)"
    using all_Done_nth [of "tasks s" i] acquire by auto
  have keep: "\<And>e. Failed e \<in> set (tasks s) \<Longrightarrow> Failed e \<in> set ((tasks s)[i := Running x])"
    using acquire by (auto intro: set_update_keeps)
  have none: "\<not> list_ex is_Failed (tasks s) \<Longrightarrow> \<not> list_ex is_Failed ((tasks s)[i := Running x])"
    by (auto simp: list_ex_iff dest: set_update_cases)
  show ?thesis
    using assms(2) nd keep none acquire
    by (auto simp: ends_well_def split: option.splits sum.splits)
next
  case (success i x r)
  have nd: "\<not> list_all is_Done (tasks s)"
    using all_Done_nth [of "tasks s" i] success by auto
  have keep: "\<And>e. Failed e \<in> set (tasks s) \<Longrightarrow> Failed e \<in> set ((tasks s)[i := Done r])"
    using success by (auto intro: set_update_keeps)
  have none: "\<not> list_ex is_Failed (tasks s) \<Longrightarrow> \<not> list_ex is_Failed ((tasks s)[i := Done r])"
    by (auto simp: list_ex_iff dest: set_update_cases)
  show ?thesis
    using assms(2) nd keep none success
    by (auto simp: ends_well_def split: option.splits sum.splits)
next
  case (failure i x e)
  have nd: "\<not> list_all is_Done (tasks s)"
    using all_Done_nth [of "tasks s" i] failure by auto
  have keep: "\<And>e'. Failed e' \<in> set (tasks s) \<Longrightarrow> Failed e' \<in> set ((tasks s)[i := Failed e])"
    using failure by (auto intro: set_update_keeps)
  have new: "Failed e \<in> set ((tasks s)[i := Failed e])"
    using failure by (simp add: set_update_memI)
  show ?thesis
    using assms(2) nd keep new failure
    by (auto simp: ends_well_def split: option.splits sum.splits)
next
  case return
  have "\<not> list_ex is_Failed (tasks s)"
    using return(3) by (induction "tasks s") (auto simp: list_ex_iff list_all_iff elim: is_Done.elims is_Failed.elims)
  then show ?thesis
    using assms(2) return
    by (auto simp: ends_well_def split: option.splits sum.splits)
qed

lemma consistent_step:
  assumes "step score s ev = Some s'" and "consistent score c ds s"
  shows "consistent score c ds s'"
proof -
  have ew: "ends_well s'"
    using ends_well_step [OF assms(1)] assms(2) by (simp add: consistent_def)
  have len: "length ds = length (tasks s)"
    using assms(2) by (auto simp: consistent_def dest: list_all2_lengthD)
  have rest: "dataset s' = ds \<and> sem s' + in_flight s' = c \<and>
      progress s' = length (filter is_Done (tasks s')) \<and>
      list_all2 (tracks score) ds (tasks s')"
    using assms(1)
  proof (cases rule: stepE)
    case (acquire i x)
    have "tracks score (ds ! i) (Running x)"
      using assms(2) acquire len by (auto simp: consistent_def list_all2_conv_all_nth)
    then have "list_all2 (tracks score) ds ((tasks s)[i := Running x])"
      using assms(2) by (auto simp: consistent_def intro: list_all2_update_right)
    then show ?thesis
      using assms(2) acquire
        count_update [of i "tasks s" is_Running "Running x"]
        count_update [of i "tasks s" is_Done "Running x"]
      by (auto simp: consistent_def in_flight_def)
  next
    case (success i x r)
    have "tracks score (ds ! i) (Done r)"
      using assms(2) success len by (auto simp: consistent_def list_all2_conv_all_nth)
    then have "list_all2 (tracks score) ds ((tasks s)[i := Done r])"
      using assms(2) by (auto simp: consistent_def intro: list_all2_update_right)
    then show ?thesis
      using assms(2) success
        count_update [of i "tasks s" is_Running "Done r"]
        count_update [of i "tasks s" is_Done "Done r"]
      by (auto simp: consistent_def in_flight_def)
  next
    case (failure i x e)
    have "tracks score (ds ! i) (Failed e)"
      using assms(2) failure len by (auto simp: consistent_def list_all2_conv_all_nth)
    then have "list_all2 (tracks score) ds ((tasks s)[i := Failed e])"
      using assms(2) by (auto simp: consistent_def intro: list_all2_update_right)
    then show ?thesis
      using assms(2) failure
        count_update [of i "tasks s" is_Running "Failed e"]
        count_update [of i "tasks s" is_Done "Failed e"]
      by (auto simp: consistent_def in_flight_def)
  next
    case return
    then show ?thesis
      using assms(2) by (auto simp: consistent_def in_flight_def)
  qed
  with ew show ?thesis by (simp add: consistent_def)
qed

lemma consistent_run:
  "run score (init c ds) evs = Some s \<Longrightarrow> consistent score c ds s"
  by (erule run_invariant [where P = "consistent score c ds"])
     (auto intro: consistent_init consistent_step)

lemma remaining_step:
  assumes "step score s ev = Some s'"
  shows "remaining s' < remaining s"
  using assms
proof (cases rule: stepE)
  case (acquire i x)
  then show ?thesis
    using count_update [of i "tasks s" is_Running "Running x"]
      count_update [of i "tasks s" is_Waiting "Running x"]
    by (auto simp: remaining_def)
next
  case (success i x r)
  then show ?thesis
    using count_update [of i "tasks s" is_Running "Done r"]
      count_update [of i "tasks s" is_Waiting "Done r"]
    by (auto simp: remaining_def)
next
  case (failure i x e)
  then show ?thesis
    using count_update [of i "tasks s" is_Running "Failed e"]
      count_update [of i "tasks s" is_Waiting "Failed e"]
    by (auto simp: remaining_def split: option.splits)
next
  case return
  then show ?thesis by (auto simp: remaining_def)
qed

lemma run_bounded:
  "run score s evs = Some s' \<Longrightarrow> length evs + remaining s' \<le> remaining s"
proof (induction evs arbitrary: s)
  case Nil
  then show ?case by simp
next
  case (Cons ev evs)
  then obtain t where t: "step score s ev = Some t" "run score t evs = Some s'"
    by (auto split: option.splits)
  from Cons.IH [OF t(2)] remaining_step [OF t(1)] show ?case by simp
qed

lemma step_enabled:
  assumes "ev \<in> set (enabled s)"
  shows "\<exists>s'. step score s ev = Some s'"
proof (cases ev)
  case (Acquire i)
  with assms have "i < length (tasks s)" "0 < sem s" "is_Waiting (tasks s ! i)"
    by (auto simp: enabled_def split: if_splits)
  then show ?thesis
    using Acquire by (cases "tasks s ! i") auto
next
  case (Complete i)
  with assms have "i < length (tasks s)" "is_Running (tasks s ! i)"
    by (auto simp: enabled_def split: if_splits)
  then show ?thesis
    using Complete by (cases "tasks s ! i") (auto split: sum.splits)
next
  case Return
  with assms show ?thesis
    by (auto simp: enabled_def split: if_splits)
qed

lemma enabled_step:
  assumes "step score s ev = Some s'"
  shows "ev \<in> set (enabled s)"
  using assms
  by (cases rule: stepE) (auto simp: enabled_def)

lemma run_completes: "\<exists>evs s'. run score s evs = Some s' \<and> quiescent s'"
proof (induction "remaining s" arbitrary: s rule: less_induct)
  case less
  show ?case
  proof (cases "quiescent s")
    case True
    then have "run score s [] = Some s \<and> quiescent s" by simp
    then show ?thesis by blast
  next
    case False
    then obtain ev where "ev \<in> set (enabled s)"
      by (cases "enabled s") (auto simp: quiescent_def)
    then obtain t where t: "step score s ev = Some t"
      using step_enabled by blast
    from less [OF remaining_step [OF t]]
    obtain evs s' where "run score t evs = Some s'" "quiescent s'" by blast
    with t have "run score s (ev # evs) = Some s' \<and> quiescent s'" by simp
    then show ?thesis by blast
  qed
qed

lemma quiescent_iff: "quiescent s \<longleftrightarrow> (\<forall>ev. step score s ev = None)"
proof
  assume "quiescent s"
  then show "\<forall>ev. step score s ev = None"
    using enabled_step [of score s] by (fastforce simp: quiescent_def)
next
  assume none: "\<forall>ev. step score s ev = None"
  show "quiescent s"
  proof (cases "enabled s")
    case Nil
    then show ?thesis by (simp add: quiescent_def)
  next
    case (Cons ev evs)
    then have "ev \<in> set (enabled s)" by simp
    from step_enabled [OF this, of score] none show ?thesis by simp
  qed
qed

lemma filter_nth_empty:
  "filter (\<lambda>i. P (xs ! i)) [0..<length xs] = [] \<Longrightarrow> filter P xs = []"
  by (auto simp: filter_empty_conv in_set_conv_nth)

lemma quiescent_consistent:
  assumes "consistent score c ds s" and "1 \<le> c" and "quiescent s"
  shows "in_flight s = 0" and "sem s = c" and "outcome s \<noteq> None"
    and "list_all (\<lambda>t. is_Done t \<or> is_Failed t) (tasks s)"
proof -
  from assms(3) have run0: "filter is_Running (tasks s) = []"
    by (auto simp: quiescent_def enabled_def intro: filter_nth_empty split: if_splits)
  then show f0: "in_flight s = 0" by (simp add: in_flight_def)
  with assms(1) show sc: "sem s = c" by (simp add: consistent_def)
  with assms(2,3) have wait0: "filter is_Waiting (tasks s) = []"
    by (auto simp: quiescent_def enabled_def intro: filter_nth_empty split: if_splits)
  have each: "is_Done t \<or> is_Failed t" if "t \<in> set (tasks s)" for t
  proof -
    from run0 wait0 that have "\<not> is_Running t" "\<not> is_Waiting t"
      by (simp_all add: filter_empty_conv)
    then show ?thesis by (cases t) simp_all
  qed
  then show fin: "list_all (\<lambda>t. is_Done t \<or> is_Failed t) (tasks s)"
    by (simp add: list_all_iff)
  show "outcome s \<noteq> None"
  proof
    assume none: "outcome s = None"
    with assms(3) have "\<not> list_all is_Done (tasks s)"
      by (auto simp: quiescent_def enabled_def split: if_splits)
    then obtain t where "t \<in> set (tasks s)" "\<not> is_Done t"
      by (auto simp: list_all_iff)
    with each have "list_ex is_Failed (tasks s)"
      by (auto simp: list_ex_iff)
    with assms(1) none show False
      by (simp add: consistent_def ends_well_def)
  qed
qed

lemma results_of_done:
  "list_all2 (tracks score) ds ts \<Longrightarrow> list_all is_Done ts \<Longrightarrow>
     list_all2 (\<lambda>x r. score x = Inr r) ds (List.map_filter the_result ts)"
proof (induction rule: list_all2_induct)
  case Nil
  then show ?case by (simp add: map_filter_simps)
next
  case (Cons x xs t ts)
  then show ?case by (cases t) (auto simp: map_filter_simps)
qed

lemma returned_results:
  assumes "consistent score c ds s" and "outcome s = Some (Inr rs)"
  shows "list_all2 (\<lambda>x r. score x = Inr r) ds rs" and "closed s"
    and "progress s = length ds"
proof -
  from assms have all: "list_all is_Done (tasks s)"
    and rs: "rs = List.map_filter the_result (tasks s)" and cl: "closed s"
    and tr: "list_all2 (tracks score) ds (tasks s)"
    and pr: "progress s = length (filter is_Done (tasks s))"
    by (auto simp: consistent_def ends_well_def)
  from results_of_done [OF tr all] rs show "list_all2 (\<lambda>x r. score x = Inr r) ds rs"
    by simp
  from cl show "closed s" .
  from all have "filter is_Done (tasks s) = tasks s"
    by (simp add: list_all_iff)
  with pr tr show "progress s = length ds"
    by (simp add: list_all2_lengthD)
qed

lemma failed_task_error:
  assumes "consistent score c ds s" and "Failed e \<in> set (tasks s)"
  shows "\<exists>j<length ds. score (ds ! j) = Inl e"
proof -
  from assms(2) obtain j where j: "j < length (tasks s)" "tasks s ! j = Failed e"
    by (auto simp: in_set_conv_nth)
  from assms(1) have tr: "list_all2 (tracks score) ds (tasks s)"
    by (simp add: consistent_def)
  with j have "j < length ds" "tracks score (ds ! j) (tasks s ! j)"
    by (auto simp: list_all2_conv_all_nth)
  with j show ?thesis by auto
qed

lemma raised_error:
  assumes "consistent score c ds s" and "outcome s = Some (Inl e)"
  shows "\<exists>j<length ds. score (ds ! j) = Inl e" and "\<not> closed s"
proof -
  from assms have "Failed e \<in> set (tasks s)" and nc: "\<not> closed s"
    by (auto simp: consistent_def ends_well_def)
  with assms(1) show "\<exists>j<length ds. score (ds ! j) = Inl e"
    by (auto intro: failed_task_error)
  from nc show "\<not> closed s" .
qed

lemma all_succeed_returns:
  assumes "consistent score c ds s" and "1 \<le> c" and "quiescent s"
    and "list_all (\<lambda>x. \<exists>r. score x = Inr r) ds"
  shows "\<exists>rs. outcome s = Some (Inr rs)"
proof (cases "outcome s")
  case None
  with quiescent_consistent(3) [OF assms(1-3)] show ?thesis by simp
next
  case (Some r)
  show ?thesis
  proof (cases r)
    case (Inl e)
    with Some raised_error(1) [OF assms(1)]
    obtain j where "j < length ds" "score (ds ! j) = Inl e" by blast
    with assms(4) show ?thesis by (auto simp: list_all_length)
  next
    case (Inr rs)
    with Some show ?thesis by simp
  qed
qed

lemma one_failure_no_return:
  assumes "consistent score c ds s" and "i < length ds" and "score (ds ! i) = Inl e"
  shows "outcome s \<noteq> Some (Inr rs)"
proof
  assume "outcome s = Some (Inr rs)"
  from returned_results(1) [OF assms(1) this] assms(2)
  have "score (ds ! i) = Inr (rs ! i)" by (auto simp: list_all2_conv_all_nth)
  with assms(3) show False by simp
qed


lemma acquire_takes:
  assumes "step score s (Acquire i) = Some s'"
  shows "0 < sem s \<and> sem s' + 1 = sem s \<and> in_flight s' = in_flight s + 1 \<and>
      is_Waiting (tasks s ! i) \<and> is_Running (tasks s' ! i)"
  using assms
proof (cases rule: stepE)
  case (acquire j x)
  then show ?thesis
    using count_update [of i "tasks s" is_Running "Running x"]
    by (auto simp: in_flight_def)
qed simp_all

text \<open>
  Claim C2. At every instant of a batch run (the state after any schedule, so also after
  every prefix of one) the number of scoring calls in flight is at most the number of
  permits \<open>c\<close> the semaphore started with; the source starts it with five. A task
  is admitted only while fewer than \<open>c\<close> calls are in flight, and its admission takes
  one permit.
\<close>

theorem in_flight_never_exceeds_limit:
  assumes "run score (init c ds) evs = Some s"
  shows "in_flight s \<le> c
    \<and> (\<forall>i s'. step score s (Acquire i) = Some s' \<longrightarrow>
          0 < sem s \<and> in_flight s < c \<and> sem s' + 1 = sem s \<and>
          in_flight s' = in_flight s + 1)"
proof -
  from consistent_run [OF assms] have eq: "sem s + in_flight s = c"
    by (simp add: consistent_def)
  then have "in_flight s \<le> c" by simp
  moreover have "0 < sem s \<and> in_flight s < c \<and> sem s' + 1 = sem s \<and>
          in_flight s' = in_flight s + 1"
    if "step score s (Acquire i) = Some s'" for i s'
    using acquire_takes [OF that] eq by auto
  ultimately show ?thesis by blast
qed


lemma progress_step:
  assumes "step score s ev = Some s'"
  shows "progress s' =
     progress s + (case ev of
                     Complete i \<Rightarrow>
                       (case tasks s ! i of
                          Running x \<Rightarrow> (case score x of Inr r \<Rightarrow> 1 | Inl e \<Rightarrow> 0)
                        | _ \<Rightarrow> 0)
                   | _ \<Rightarrow> 0)"
  using assms by (cases rule: stepE) auto

lemma progress_mono:
  "run score s evs = Some s' \<Longrightarrow> progress s \<le> progress s'"
proof (induction evs arbitrary: s)
  case Nil
  then show ?case by simp
next
  case (Cons ev evs)
  then obtain t where t: "step score s ev = Some t" "run score t evs = Some s'"
    by (auto split: option.splits)
  from progress_step [OF t(1)] have "progress s \<le> progress t" by simp
  with Cons.IH [OF t(2)] show ?case by simp
qed

lemma closed_only_on_return:
  assumes "consistent score c ds s" and "closed s"
  shows "\<exists>rs. outcome s = Some (Inr rs)"
  using assms by (auto simp: consistent_def ends_well_def split: option.splits sum.splits)

text \<open>
  Claim C6. The progress counter is the number of tasks that finished successfully, so
  it never exceeds the number of items. An event changes it only when it is the
  successful completion of a scoring call, and then by exactly one; it never decreases
  along a run. Once every task is done the counter equals the number of items, the only
  thing left to happen is the return, and the return closes the bar. The bar is closed
  only by a return.
\<close>

theorem progress_counts_successful_completions:
  assumes "run score (init c ds) evs = Some s"
  shows "progress s = length (filter is_Done (tasks s))
    \<and> progress s \<le> length ds
    \<and> (\<forall>ev s'. step score s ev = Some s' \<longrightarrow>
          progress s' =
            progress s + (case ev of
                            Complete i \<Rightarrow>
                              (case tasks s ! i of
                                 Running x \<Rightarrow> (case score x of Inr r \<Rightarrow> 1 | Inl e \<Rightarrow> 0)
                               | _ \<Rightarrow> 0)
                          | _ \<Rightarrow> 0))
    \<and> (\<forall>evs' s'. run score s evs' = Some s' \<longrightarrow> progress s \<le> progress s')
    \<and> (list_all is_Done (tasks s) \<longrightarrow> progress s = length ds)
    \<and> (list_all is_Done (tasks s) \<and> outcome s = None \<longrightarrow>
          enabled s = [Return] \<and>
          (\<exists>s'. step score s Return = Some s' \<and> closed s' \<and> progress s' = length ds))
    \<and> (closed s \<longrightarrow> (\<exists>rs. outcome s = Some (Inr rs)) \<and> progress s = length ds)"
proof -
  note cs = consistent_run [OF assms]
  have len: "length (tasks s) = length ds"
    using cs by (auto simp: consistent_def dest: list_all2_lengthD)
  have p1: "progress s = length (filter is_Done (tasks s))"
    using cs by (simp add: consistent_def)
  have p2: "progress s \<le> length ds"
    using p1 len length_filter_le [of is_Done "tasks s"] by simp
  have p3: "\<forall>ev s'. step score s ev = Some s' \<longrightarrow>
          progress s' =
            progress s + (case ev of
                            Complete i \<Rightarrow>
                              (case tasks s ! i of
                                 Running x \<Rightarrow> (case score x of Inr r \<Rightarrow> 1 | Inl e \<Rightarrow> 0)
                               | _ \<Rightarrow> 0)
                          | _ \<Rightarrow> 0)"
    using progress_step by blast
  have p4: "\<forall>evs' s'. run score s evs' = Some s' \<longrightarrow> progress s \<le> progress s'"
    using progress_mono by blast
  have all: "progress s = length ds" if "list_all is_Done (tasks s)"
  proof -
    from that have "filter is_Done (tasks s) = tasks s" by (simp add: list_all_iff)
    with p1 len show ?thesis by simp
  qed
  have p6: "enabled s = [Return] \<and>
      (\<exists>s'. step score s Return = Some s' \<and> closed s' \<and> progress s' = length ds)"
    if d: "list_all is_Done (tasks s)" and n: "outcome s = None"
  proof -
    have "\<not> is_Waiting t" "\<not> is_Running t" if "t \<in> set (tasks s)" for t
      using d that by (cases t; auto simp: list_all_iff)+
    then have "filter (\<lambda>i. is_Waiting (tasks s ! i)) [0..<length (tasks s)] = []"
      and "filter (\<lambda>i. is_Running (tasks s ! i)) [0..<length (tasks s)] = []"
      by (auto simp: filter_empty_conv)
    with d n have "enabled s = [Return]" by (simp add: enabled_def)
    with d n all show ?thesis by simp
  qed
  have p7: "(\<exists>rs. outcome s = Some (Inr rs)) \<and> progress s = length ds" if "closed s"
  proof -
    from closed_only_on_return [OF cs that] obtain rs where "outcome s = Some (Inr rs)" ..
    with returned_results(3) [OF cs this] show ?thesis by simp
  qed
  from p1 p2 p3 p4 all p6 p7 show ?thesis by blast
qed

lemma remaining_init: "remaining (init c ds :: ('a, 'b) state) = 2 * length ds + 1"
proof -
  have "filter is_Waiting (map Waiting ds) = (map Waiting ds :: ('a, 'b) status list)"
    by (induction ds) auto
  moreover have "filter is_Running (map Waiting ds) = ([] :: ('a, 'b) status list)"
    by (induction ds) auto
  ultimately show ?thesis by (simp add: remaining_def init_def)
qed

lemma run_finishes:
  assumes "run score (init c ds) evs = Some s"
  shows "length evs \<le> 2 * length ds + 1 \<and>
     (\<exists>evs' s'. run score (init c ds) (evs @ evs') = Some s' \<and> quiescent s')"
proof -
  from run_bounded [OF assms] have "length evs \<le> 2 * length ds + 1"
    by (simp add: remaining_init)
  moreover from run_completes [of score s]
  obtain evs' s' where "run score s evs' = Some s'" "quiescent s'" by blast
  with assms have "run score (init c ds) (evs @ evs') = Some s' \<and> quiescent s'"
    by (simp add: run_append)
  ultimately show ?thesis by blast
qed

lemma positional_mset:
  "list_all2 (\<lambda>x r. score x = Inr r) ds rs \<Longrightarrow> mset (map Inr rs) = mset (map score ds)"
  by (induction rule: list_all2_induct) auto

lemma positional_field:
  assumes "list_all2 (\<lambda>x r. score x = Inr r) ds rs"
    and "\<forall>x\<in>set ds. \<forall>r. score x = Inr r \<longrightarrow> r k = x k"
  shows "map (\<lambda>r. r k) rs = map (\<lambda>x. x k) ds"
  using assms by (induction rule: list_all2_induct) auto

text \<open>
  Claim C1. With at least one permit, a batch over \<open>N\<close> items always runs to its end:
  no schedule has more than \<open>2 N + 1\<close> events, and each can be continued until nothing
  is left to happen. Whatever list the call returns has \<open>N\<close> results which, taken as a
  multiset, are exactly the score results of the input items: every item accounts for one
  result and every result for one item. For a field that scoring passes through on these
  items (an identifying field, say the question), the results carry exactly the items'
  values of it, each as often as the items do. And the call does return a list, at the
  end of every run, when every scoring call succeeds; what happens when one fails is the
  subject of claim C5.
\<close>

theorem limited_get_score_returns_every_item:
  assumes "1 \<le> c"
  shows "\<forall>evs s. run score (init c ds) evs = Some s \<longrightarrow>
      length evs \<le> 2 * length ds + 1
    \<and> (\<exists>evs' s'. run score (init c ds) (evs @ evs') = Some s' \<and> quiescent s')
    \<and> (\<forall>rs. outcome s = Some (Inr rs) \<longrightarrow>
          length rs = length ds \<and>
          mset (map Inr rs) = mset (map score ds) \<and>
          (\<forall>k. (\<forall>x\<in>set ds. \<forall>r. score x = Inr r \<longrightarrow> r k = x k) \<longrightarrow>
               mset (map (\<lambda>r. r k) rs) = mset (map (\<lambda>x. x k) ds)))
    \<and> (quiescent s \<and> list_all (\<lambda>x. \<not> isl (score x)) ds \<longrightarrow>
          (\<exists>rs. outcome s = Some (Inr rs)))"
proof (intro allI impI)
  fix evs s
  assume r: "run score (init c ds) evs = Some s"
  note cs = consistent_run [OF r]
  note finishes = run_finishes [OF r]
  have results: "length rs = length ds \<and>
          mset (map Inr rs) = mset (map score ds) \<and>
          (\<forall>k. (\<forall>x\<in>set ds. \<forall>r. score x = Inr r \<longrightarrow> r k = x k) \<longrightarrow>
               mset (map (\<lambda>r. r k) rs) = mset (map (\<lambda>x. x k) ds))"
    if rs: "outcome s = Some (Inr rs)" for rs
  proof -
    note pos = returned_results(1) [OF cs rs]
    from pos have len: "length rs = length ds" by (simp add: list_all2_lengthD)
    have fld: "mset (map (\<lambda>r. r k) rs) = mset (map (\<lambda>x. x k) ds)"
      if "\<forall>x\<in>set ds. \<forall>r. score x = Inr r \<longrightarrow> r k = x k" for k
      using positional_field [OF pos that] by simp
    from len positional_mset [OF pos] fld show ?thesis by blast
  qed
  have returns: "\<exists>rs. outcome s = Some (Inr rs)"
    if q: "quiescent s" and ok: "list_all (\<lambda>x. \<not> isl (score x)) ds"
  proof -
    from ok have "list_all (\<lambda>x. \<exists>r. score x = Inr r) ds"
      by (auto simp: list_all_iff isl_def) (metis sum.exhaust)
    from all_succeed_returns [OF cs assms q this] show ?thesis .
  qed
  from finishes results returns
  show "length evs \<le> 2 * length ds + 1
    \<and> (\<exists>evs' s'. run score (init c ds) (evs @ evs') = Some s' \<and> quiescent s')
    \<and> (\<forall>rs. outcome s = Some (Inr rs) \<longrightarrow>
          length rs = length ds \<and>
          mset (map Inr rs) = mset (map score ds) \<and>
          (\<forall>k. (\<forall>x\<in>set ds. \<forall>r. score x = Inr r \<longrightarrow> r k = x k) \<longrightarrow>
               mset (map (\<lambda>r. r k) rs) = mset (map (\<lambda>x. x k) ds)))
    \<and> (quiescent s \<and> list_all (\<lambda>x. \<not> isl (score x)) ds \<longrightarrow>
          (\<exists>rs. outcome s = Some (Inr rs)))"
    by blast
qed

text \<open>
  Claim C10. When every scoring call succeeds, the list returned at the end of a run is
  in submission order: its \<open>i\<close>-th element is the score result of the \<open>i\<close>-th item.
\<close>

theorem limited_get_score_submission_order:
  assumes "1 \<le> c" and "list_all (\<lambda>x. \<not> isl (score x)) ds"
    and "run score (init c ds) evs = Some s" and "quiescent s"
  shows "\<exists>rs. outcome s = Some (Inr rs) \<and> length rs = length ds \<and>
           (\<forall>i<length ds. score (ds ! i) = Inr (rs ! i))"
proof -
  note cs = consistent_run [OF assms(3)]
  from assms(2) have ok: "list_all (\<lambda>x. \<exists>r. score x = Inr r) ds"
    by (auto simp: list_all_iff isl_def) (metis sum.exhaust)
  from all_succeed_returns [OF cs assms(1) assms(4) ok]
  obtain rs where rs: "outcome s = Some (Inr rs)" ..
  from returned_results(1) [OF cs rs]
  have "length rs = length ds \<and> (\<forall>i<length ds. score (ds ! i) = Inr (rs ! i))"
    by (auto simp: list_all2_conv_all_nth)
  with rs show ?thesis by blast
qed

lemma failed_stays_failed:
  assumes "step score s ev = Some s'" and "tasks s ! j = Failed e"
  shows "tasks s' ! j = Failed e"
  using assms(1)
proof (cases rule: stepE)
  case (acquire i x)
  with assms(2) show ?thesis by (cases "i = j") auto
next
  case (success i x r)
  with assms(2) show ?thesis by (cases "i = j") auto
next
  case (failure i x e')
  with assms(2) show ?thesis by (cases "i = j") auto
next
  case return
  with assms(2) show ?thesis by simp
qed

lemma failed_stays_failed_run:
  "run score s evs = Some s' \<Longrightarrow> tasks s ! j = Failed e \<Longrightarrow> tasks s' ! j = Failed e"
proof (induction evs arbitrary: s)
  case Nil
  then show ?case by simp
next
  case (Cons ev evs)
  then obtain t where t: "step score s ev = Some t" "run score t evs = Some s'"
    by (auto split: option.splits)
  from Cons.IH [OF t(2) failed_stays_failed [OF t(1) Cons.prems(2)]] show ?case .
qed

text \<open>
  Claim C5. If the scoring call fails for one of the items, the batch fails as a whole:
  it runs to its end under every schedule (none has more than \<open>2 N + 1\<close> events, and
  each can be continued until nothing is left to happen), at no moment has it returned a
  result list,
  and at the end it has raised the exception of an item whose scoring failed. A failed
  task stays failed, so its call is not made again.
\<close>

theorem limited_get_score_fails_as_a_whole:
  assumes "1 \<le> c" and "i < length ds" and "score (ds ! i) = Inl e"
  shows "(\<forall>evs s. run score (init c ds) evs = Some s \<longrightarrow>
            length evs \<le> 2 * length ds + 1 \<and>
            (\<exists>evs' s'. run score (init c ds) (evs @ evs') = Some s' \<and> quiescent s'))
    \<and> (\<forall>evs s. run score (init c ds) evs = Some s \<longrightarrow>
          (\<forall>rs. outcome s \<noteq> Some (Inr rs))
        \<and> (\<forall>j e' evs' s'. tasks s ! j = Failed e' \<and> run score s evs' = Some s' \<longrightarrow>
               tasks s' ! j = Failed e')
        \<and> (quiescent s \<longrightarrow>
              (\<exists>j e'. j < length ds \<and> score (ds ! j) = Inl e' \<and>
                      outcome s = Some (Inl e'))))"
proof -
  have finishes: "length evs \<le> 2 * length ds + 1 \<and>
      (\<exists>evs' s'. run score (init c ds) (evs @ evs') = Some s' \<and> quiescent s')"
    if "run score (init c ds) evs = Some s" for evs s
    using that by (rule run_finishes)
  have never: "outcome s \<noteq> Some (Inr rs)"
    if "run score (init c ds) evs = Some s" for evs s rs
    using one_failure_no_return [OF consistent_run [OF that] assms(2,3)] .
  have stays: "tasks s' ! j = Failed e'"
    if "tasks s ! j = Failed e' \<and> run score s evs' = Some s'" for s j e' evs' s'
    using that failed_stays_failed_run by blast
  have raises: "\<exists>j e'. j < length ds \<and> score (ds ! j) = Inl e' \<and> outcome s = Some (Inl e')"
    if r: "run score (init c ds) evs = Some s" and q: "quiescent s" for evs s
  proof -
    note cs = consistent_run [OF r]
    from quiescent_consistent(3) [OF cs assms(1) q]
    obtain res where res: "outcome s = Some res" by auto
    show ?thesis
    proof (cases res)
      case (Inl e')
      with res raised_error(1) [OF cs] show ?thesis by blast
    next
      case (Inr rs)
      with res never [OF r] show ?thesis by blast
    qed
  qed
  from finishes never stays raises show ?thesis by blast
qed

lemma run_empty:
  assumes "run score (init c []) evs = Some s"
  shows "evs = [] \<and> s = init c [] \<or>
         evs = [Return] \<and>
         s = \<lparr>dataset = [], sem = c, tasks = [], progress = 0, closed = True,
              outcome = Some (Inr [])\<rparr>"
proof (cases evs)
  case Nil
  with assms show ?thesis by simp
next
  case (Cons ev evs')
  note outer = Cons
  show ?thesis
  proof (cases ev)
    case (Acquire i)
    with assms outer show ?thesis by (simp add: init_def)
  next
    case (Complete i)
    with assms outer show ?thesis by (simp add: init_def)
  next
    case Return
    show ?thesis
    proof (cases evs')
      case Nil
      with assms outer Return show ?thesis
        by (auto simp: init_def)
    next
      case (Cons ev2 evs2)
      with assms outer Return show ?thesis
        by (cases ev2) (auto simp: init_def)
    qed
  qed
qed

text \<open>
  Claim C8. On the empty dataset the only thing that can happen is the return. It
  yields the empty list and ends the run; no schedule acquires a permit, has a call in
  flight or advances the progress counter.
\<close>

theorem empty_dataset_returns_at_once:
  "enabled (init c [] :: ('a, 'b) state) = [Return]
   \<and> run (score :: 'a \<Rightarrow> error + 'b) (init c []) [Return] =
       Some \<lparr>dataset = [], sem = c, tasks = [], progress = 0, closed = True,
             outcome = Some (Inr [])\<rparr>
   \<and> quiescent \<lparr>dataset = ([] :: 'a list), sem = c, tasks = ([] :: ('a, 'b) status list),
         progress = 0, closed = True, outcome = Some (Inr [])\<rparr>
   \<and> (\<forall>evs s. run score (init c []) evs = Some s \<longrightarrow>
         (evs = [] \<or> evs = [Return]) \<and> sem s = c \<and> in_flight s = 0 \<and> progress s = 0)"
proof -
  have e: "enabled (init c [] :: ('a, 'b) state) = [Return]"
    by (simp add: enabled_def init_def)
  have r: "run score (init c []) [Return] =
       Some \<lparr>dataset = [], sem = c, tasks = [], progress = 0, closed = True,
             outcome = Some (Inr [])\<rparr>"
    by (simp add: init_def)
  have q: "quiescent \<lparr>dataset = ([] :: 'a list), sem = c,
         tasks = ([] :: ('a, 'b) status list),
         progress = 0, closed = True, outcome = Some (Inr [])\<rparr>"
    by (simp add: quiescent_def enabled_def)
  have a: "(evs = [] \<or> evs = [Return]) \<and> sem s = c \<and> in_flight s = 0 \<and> progress s = 0"
    if "run score (init c []) evs = Some s" for evs and s :: "('a, 'b) state"
    using run_empty [OF that] by (auto simp: init_def in_flight_def)
  from e r q a show ?thesis by blast
qed

lemma relabel_Done: "list_all is_Done (map (relabel_task f) ts) = list_all is_Done ts"
proof (induction ts)
  case Nil
  then show ?case by simp
next
  case (Cons t ts)
  then show ?case by (cases t) simp_all
qed

lemma relabel_results:
  "List.map_filter the_result (map (relabel_task f) ts) = List.map_filter the_result ts"
proof (induction ts)
  case Nil
  then show ?case by simp
next
  case (Cons t ts)
  then show ?case by (cases t) simp_all
qed

lemma step_relabel:
  assumes "\<And>x. score' (f x) = score x"
  shows "step score' (relabel f s) ev = map_option (relabel f) (step score s ev)"
proof (cases ev)
  case (Acquire i)
  show ?thesis
  proof (cases "i < length (tasks s)")
    case True
    then show ?thesis
      using Acquire by (cases "tasks s ! i") (simp_all add: relabel_def map_update)
  next
    case False
    then show ?thesis using Acquire by (simp add: relabel_def)
  qed
next
  case (Complete i)
  show ?thesis
  proof (cases "i < length (tasks s)")
    case True
    then show ?thesis
      using Complete assms
      by (cases "tasks s ! i") (simp_all add: relabel_def map_update split: sum.splits)
  next
    case False
    then show ?thesis using Complete by (simp add: relabel_def)
  qed
next
  case Return
  then show ?thesis
    by (simp add: relabel_def relabel_Done relabel_results)
qed

lemma run_relabel:
  assumes "\<And>x. score' (f x) = score x"
  shows "run score' (relabel f s) evs = map_option (relabel f) (run score s evs)"
proof (induction evs arbitrary: s)
  case Nil
  then show ?case by simp
next
  case (Cons ev evs)
  then show ?case
    by (cases "step score s ev") (simp_all add: step_relabel [of score' f score, OF assms])
qed

lemma relabel_init: "relabel f (init c ds) = init c (map f ds)"
  by (simp add: relabel_def init_def)

lemma get_eval_score_heap_pure:
  "get_eval_score_heap judge loads h r =
     (case get_eval_score judge loads (h ! r) of
        Inl e \<Rightarrow> (Inl e, h)
      | Inr merged \<Rightarrow> (Inr (length h), h @ [merged]))"
  by (simp add: get_eval_score_heap_def get_eval_score_def
      split: option.splits sum.splits json.splits)

lemma tracks_heap_grow:
  assumes "tracks_heap judge loads h0 h x t"
  shows "tracks_heap judge loads h0 (h @ [m]) x t"
  using assms by (cases t) (auto simp: nth_append)

lemma step_heapE:
  assumes "step_heap judge loads hs ev = Some hs'"
  obtains
    (acquire) i x where "ev = Acquire i" "i < length (tasks (batch hs))"
      "tasks (batch hs) ! i = Waiting x" "heap hs' = heap hs"
      "batch hs' = (batch hs)\<lparr>sem := sem (batch hs) - 1,
          tasks := (tasks (batch hs))[i := Running x]\<rparr>"
  | (success) i x merged where "ev = Complete i" "i < length (tasks (batch hs))"
      "tasks (batch hs) ! i = Running x"
      "get_eval_score judge loads (heap hs ! x) = Inr merged"
      "heap hs' = heap hs @ [merged]"
      "batch hs' = (batch hs)\<lparr>progress := progress (batch hs) + 1,
          sem := sem (batch hs) + 1,
          tasks := (tasks (batch hs))[i := Done (length (heap hs))]\<rparr>"
  | (failure) i x e where "ev = Complete i" "i < length (tasks (batch hs))"
      "tasks (batch hs) ! i = Running x"
      "get_eval_score judge loads (heap hs ! x) = Inl e"
      "heap hs' = heap hs"
      "batch hs' = (batch hs)\<lparr>sem := sem (batch hs) + 1,
          tasks := (tasks (batch hs))[i := Failed e],
          outcome := (case outcome (batch hs) of
                        None \<Rightarrow> Some (Inl e) | Some r \<Rightarrow> Some r)\<rparr>"
  | (return) "ev = Return" "heap hs' = heap hs"
      "batch hs' = (batch hs)\<lparr>closed := True,
          outcome := Some (Inr (List.map_filter the_result (tasks (batch hs))))\<rparr>"
proof -
  from assms obtain s'
    where st: "step (\<lambda>sample. fst (get_eval_score_heap judge loads (heap hs) sample))
                 (batch hs) ev = Some s'"
      and hs': "hs' = \<lparr>heap = (case ev of
                          Complete i \<Rightarrow>
                            (case tasks (batch hs) ! i of
                               Running sample \<Rightarrow>
                                 snd (get_eval_score_heap judge loads (heap hs) sample)
                             | _ \<Rightarrow> heap hs)
                        | _ \<Rightarrow> heap hs),
                batch = s'\<rparr>"
    by (auto simp: step_heap_def split: option.splits)
  from st show ?thesis
  proof (cases rule: stepE)
    case (acquire i x)
    with hs' show ?thesis by (intro that(1) [of i x]) simp_all
  next
    case (success i x r)
    then obtain merged where m: "get_eval_score judge loads (heap hs ! x) = Inr merged"
      "r = length (heap hs)"
      by (auto simp: get_eval_score_heap_pure split: sum.splits)
    with success hs' show ?thesis
      by (intro that(2) [of i x merged]) (simp_all add: get_eval_score_heap_pure)
  next
    case (failure i x e)
    then have m: "get_eval_score judge loads (heap hs ! x) = Inl e"
      by (auto simp: get_eval_score_heap_pure split: sum.splits)
    with failure hs' show ?thesis
      by (intro that(3) [of i x e]) (simp_all add: get_eval_score_heap_pure)
  next
    case return
    with hs' show ?thesis by (intro that(4)) simp_all
  qed
qed

lemma frame_read:
  assumes "take (length h0) h = h0" and "r < length h0"
  shows "h ! r = h0 ! r"
  using assms by (metis nth_take)

lemma frame_step:
  assumes st: "step_heap judge loads hs ev = Some hs'"
    and fr: "frame judge loads h0 ds hs"
    and valid: "list_all (\<lambda>r. r < length h0) ds"
  shows "frame judge loads h0 ds hs'"
proof -
  from fr have tk: "take (length h0) (heap hs) = h0" and le: "length h0 \<le> length (heap hs)"
    and dsq: "dataset (batch hs) = ds"
    and tr: "list_all2 (tracks_heap judge loads h0 (heap hs)) ds (tasks (batch hs))"
    by (simp_all add: frame_def)
  from tr have len: "length ds = length (tasks (batch hs))" by (rule list_all2_lengthD)
  have item: "ds ! i < length h0" if "i < length (tasks (batch hs))" for i
    using valid that len by (simp add: list_all_length)
  have at: "tracks_heap judge loads h0 (heap hs) (ds ! i) (tasks (batch hs) ! i)"
    if "i < length (tasks (batch hs))" for i
    using tr that len by (simp add: list_all2_conv_all_nth)
  from st show ?thesis
  proof (cases rule: step_heapE)
    case (acquire i x)
    from at [OF acquire(2)] acquire(3)
    have "tracks_heap judge loads h0 (heap hs) (ds ! i) (Running x)" by simp
    with tr have "list_all2 (tracks_heap judge loads h0 (heap hs)) ds
        ((tasks (batch hs))[i := Running x])"
      by (rule list_all2_update_right)
    with acquire tk le dsq show ?thesis by (simp add: frame_def)
  next
    case (success i x merged)
    from at [OF success(2)] success(3) have x: "x = ds ! i" by simp
    with item [OF success(2)] have xv: "x < length h0" by simp
    from frame_read [OF tk xv] success(4) x
    have sc: "get_eval_score judge loads (h0 ! (ds ! i)) = Inr merged" by simp
    have grown: "list_all2 (tracks_heap judge loads h0 (heap hs @ [merged])) ds
        (tasks (batch hs))"
      using tr by (rule list_all2_mono) (rule tracks_heap_grow)
    from sc le
    have "tracks_heap judge loads h0 (heap hs @ [merged]) (ds ! i) (Done (length (heap hs)))"
      by simp
    with grown have "list_all2 (tracks_heap judge loads h0 (heap hs @ [merged])) ds
        ((tasks (batch hs))[i := Done (length (heap hs))])"
      by (rule list_all2_update_right)
    with success tk le dsq show ?thesis by (simp add: frame_def)
  next
    case (failure i x e)
    from at [OF failure(2)] failure(3) have x: "x = ds ! i" by simp
    with item [OF failure(2)] have xv: "x < length h0" by simp
    from frame_read [OF tk xv] failure(4) x
    have "tracks_heap judge loads h0 (heap hs) (ds ! i) (Failed e)" by simp
    with tr have "list_all2 (tracks_heap judge loads h0 (heap hs)) ds
        ((tasks (batch hs))[i := Failed e])"
      by (rule list_all2_update_right)
    with failure tk le dsq show ?thesis by (simp add: frame_def)
  next
    case return
    with tk le dsq tr show ?thesis by (simp add: frame_def)
  qed
qed

lemma frame_init: "frame judge loads h0 ds \<lparr>heap = h0, batch = init c ds\<rparr>"
  by (simp add: frame_def init_def list_all2_conv_all_nth)

lemma frame_run:
  assumes "run_heap judge loads hs evs = Some hs'"
    and "frame judge loads h0 ds hs" and "list_all (\<lambda>r. r < length h0) ds"
  shows "frame judge loads h0 ds hs'"
  using assms(1,2)
proof (induction evs arbitrary: hs)
  case Nil
  then show ?case by simp
next
  case (Cons ev evs)
  then obtain t where t: "step_heap judge loads hs ev = Some t"
    "run_heap judge loads t evs = Some hs'"
    by (auto split: option.splits)
  from Cons.IH [OF t(2) frame_step [OF t(1) Cons.prems(2) assms(3)]] show ?case .
qed

lemma get_eval_score_heap_frame:
  assumes "get_eval_score_heap judge loads h r = (res, h')"
  shows "take (length h) h' = h
    \<and> (case res of
          Inl e \<Rightarrow> h' = h \<and> get_eval_score judge loads (h ! r) = Inl e
        | Inr new \<Rightarrow> new = length h \<and> length h' = length h + 1 \<and>
                     get_eval_score judge loads (h ! r) = Inr (h' ! new))"
  using assms by (auto simp: get_eval_score_heap_pure split: sum.splits)

lemma deref_task_grow: "task_in h t \<Longrightarrow> deref_task (h @ [m]) t = deref_task h t"
  by (cases t) (simp_all add: nth_append)

lemma task_in_grow: "task_in h t \<Longrightarrow> task_in (h @ [m]) t"
  by (cases t) simp_all

lemma map_deref_task_grow:
  "list_all (task_in h) ts \<Longrightarrow> map (deref_task (h @ [m])) ts = map (deref_task h) ts"
  by (induction ts) (simp_all add: deref_task_grow)

lemma map_nth_grow:
  "list_all (\<lambda>r. r < length h) rs \<Longrightarrow> map ((!) (h @ [m])) rs = map ((!) h) rs"
  by (induction rs) (simp_all add: nth_append)

lemma deref_Done: "list_all is_Done (map (deref_task h) ts) = list_all is_Done ts"
proof (induction ts)
  case Nil
  then show ?case by simp
next
  case (Cons t ts)
  then show ?case by (cases t) simp_all
qed

lemma deref_results:
  "List.map_filter the_result (map (deref_task h) ts)
     = map ((!) h) (List.map_filter the_result ts)"
proof (induction ts)
  case Nil
  then show ?case by simp
next
  case (Cons t ts)
  then show ?case by (cases t) simp_all
qed

lemma results_in:
  "list_all (task_in h) ts \<Longrightarrow> list_all (\<lambda>r. r < length h) (List.map_filter the_result ts)"
proof (induction ts)
  case Nil
  then show ?case by simp
next
  case (Cons t ts)
  then show ?case by (cases t) simp_all
qed

lemma refs_in_step:
  assumes "step_heap judge loads hs ev = Some hs'" and "refs_in hs"
  shows "refs_in hs'"
  using assms(1)
proof (cases rule: step_heapE)
  case (acquire i x)
  from assms(2) acquire(2,3) have "task_in (heap hs) (Running x)"
    by (auto simp: refs_in_def list_all_length)
  with assms(2) acquire show ?thesis
    by (auto simp: refs_in_def list_all_length nth_list_update split: option.splits sum.splits)
next
  case (success i x merged)
  have g: "list_all (\<lambda>r. r < length (heap hs @ [merged])) rs"
    if "list_all (\<lambda>r. r < length (heap hs)) rs" for rs
    using that by (auto simp: list_all_iff)
  have t: "list_all (task_in (heap hs @ [merged])) ((tasks (batch hs))[i := Done (length (heap hs))])"
    using assms(2) success(2)
    by (auto simp: refs_in_def list_all_length nth_list_update intro: task_in_grow)
  from assms(2) success g t show ?thesis
    by (auto simp: refs_in_def split: option.splits sum.splits)
next
  case (failure i x e)
  with assms(2) show ?thesis
    by (auto simp: refs_in_def list_all_length nth_list_update split: option.splits sum.splits)
next
  case return
  with assms(2) results_in [of "heap hs" "tasks (batch hs)"] show ?thesis
    by (auto simp: refs_in_def split: option.splits sum.splits)
qed

lemma step_deref:
  assumes "refs_in hs"
  shows "map_option deref (step_heap judge loads hs ev)
     = step (get_eval_score judge loads) (deref hs) ev"
proof (cases ev)
  case (Acquire i)
  show ?thesis
  proof (cases "i < length (tasks (batch hs))")
    case True
    then show ?thesis
      using Acquire
      by (cases "tasks (batch hs) ! i") (simp_all add: step_heap_def deref_def map_update)
  next
    case False
    then show ?thesis using Acquire by (simp add: step_heap_def deref_def)
  qed
next
  case (Complete i)
  show ?thesis
  proof (cases "i < length (tasks (batch hs))")
    case True
    show ?thesis
    proof (cases "tasks (batch hs) ! i")
      case (Running x)
      show ?thesis
      proof (cases "get_eval_score judge loads (heap hs ! x)")
        case (Inl e)
        with True Running Complete show ?thesis
          by (simp add: step_heap_def deref_def map_update get_eval_score_heap_pure
              split: option.splits)
      next
        case (Inr merged)
        from assms have eqs: "map (deref_task (heap hs @ [merged])) (tasks (batch hs))
            = map (deref_task (heap hs)) (tasks (batch hs))"
          "map ((!) (heap hs @ [merged])) (dataset (batch hs))
            = map ((!) (heap hs)) (dataset (batch hs))"
          "map_option (map_sum id (map ((!) (heap hs @ [merged])))) (outcome (batch hs))
            = map_option (map_sum id (map ((!) (heap hs)))) (outcome (batch hs))"
          by (auto simp: refs_in_def map_deref_task_grow map_nth_grow
              split: option.splits sum.splits)
        from Inr True Running Complete show ?thesis
          by (simp add: step_heap_def deref_def map_update get_eval_score_heap_pure eqs
              del: map_eq_conv)
      qed
    qed (use True Complete in \<open>simp_all add: step_heap_def deref_def\<close>)
  next
    case False
    then show ?thesis using Complete by (simp add: step_heap_def deref_def)
  qed
next
  case Return
  then show ?thesis
    by (simp add: step_heap_def deref_def deref_Done deref_results)
qed

lemma run_deref:
  assumes "refs_in hs"
  shows "map_option deref (run_heap judge loads hs evs)
     = run (get_eval_score judge loads) (deref hs) evs"
  using assms
proof (induction evs arbitrary: hs)
  case Nil
  then show ?case by simp
next
  case (Cons ev evs)
  show ?case
  proof (cases "step_heap judge loads hs ev")
    case None
    with step_deref [OF Cons.prems, of judge loads ev] show ?thesis by simp
  next
    case (Some hs')
    from step_deref [OF Cons.prems, of judge loads ev] Some
    have "step (get_eval_score judge loads) (deref hs) ev = Some (deref hs')" by simp
    with Some Cons.IH [OF refs_in_step [OF Some Cons.prems]] show ?thesis by simp
  qed
qed

lemma refs_in_init:
  "list_all (\<lambda>r. r < length h0) ds \<Longrightarrow> refs_in \<lparr>heap = h0, batch = init c ds\<rparr>"
  by (simp add: refs_in_def init_def list_all_iff)

lemma deref_init:
  "deref \<lparr>heap = h0, batch = init c ds\<rparr> = init c (map ((!) h0) ds)"
  by (simp add: deref_def init_def)

text \<open>
  Claim C9. The batching layer reads nothing of an item: if the items are replaced by
  relabelled ones and the scoring function gives on each relabelled item what it gave on
  the original, the run is the same, relabelled; and every task holds, or has been scored
  on, exactly the item it was created for.

  Nothing is changed in place. One call of \<^verbatim>\<open>get_eval_score\<close> on a store leaves
  every object of the store as it was; when it fails the store is the same, and when it
  succeeds its result is a reference to one new object, the merge. A run of the batch on
  a store is the run on values of the other claims, read through the store. At every
  moment of it the store still begins with the objects it began with, so every input
  item has the fields it had; the caller's list holds the same references; and the
  result of a task that is done is a reference to an object the store did not have
  before, whose contents are the score result of the task's original item.
\<close>

theorem items_pass_through_unmodified:
  assumes "\<And>x. score' (f x) = score x"
  shows "run score' (init c (map f ds)) evs = map_option (relabel f) (run score (init c ds) evs)
    \<and> (\<forall>s. run score (init c ds) evs = Some s \<longrightarrow>
          dataset s = ds \<and> list_all2 (tracks score) ds (tasks s))
    \<and> (\<forall>h r res h'. get_eval_score_heap judge loads h r = (res, h') \<longrightarrow>
          take (length h) h' = h \<and>
          (case res of
             Inl e \<Rightarrow> h' = h \<and> get_eval_score judge loads (h ! r) = Inl e
           | Inr new \<Rightarrow> new = length h \<and> length h' = length h + 1 \<and>
                        get_eval_score judge loads (h ! r) = Inr (h' ! new)))
    \<and> (list_all (\<lambda>r. r < length h0) refs \<longrightarrow>
          map_option deref (run_heap judge loads \<lparr>heap = h0, batch = init c refs\<rparr> evs)
            = run (get_eval_score judge loads) (init c (map ((!) h0) refs)) evs
        \<and> (\<forall>hs. run_heap judge loads \<lparr>heap = h0, batch = init c refs\<rparr> evs = Some hs \<longrightarrow>
              take (length h0) (heap hs) = h0 \<and>
              dataset (batch hs) = refs \<and>
              (\<forall>i<length refs. heap hs ! (refs ! i) = h0 ! (refs ! i)) \<and>
              (\<forall>i res. i < length refs \<and> tasks (batch hs) ! i = Done res \<longrightarrow>
                   length h0 \<le> res \<and> res < length (heap hs) \<and>
                   get_eval_score judge loads (h0 ! (refs ! i)) = Inr (heap hs ! res))))"
proof -
  have p1: "run score' (init c (map f ds)) evs
      = map_option (relabel f) (run score (init c ds) evs)"
    using run_relabel [of score' f score "init c ds" evs, OF assms]
    by (simp add: relabel_init)
  have p2: "dataset s = ds \<and> list_all2 (tracks score) ds (tasks s)"
    if "run score (init c ds) evs = Some s" for s
    using consistent_run [OF that] by (simp add: consistent_def)
  have p3: "take (length h) h' = h \<and>
          (case res of
             Inl e \<Rightarrow> h' = h \<and> get_eval_score judge loads (h ! r) = Inl e
           | Inr new \<Rightarrow> new = length h \<and> length h' = length h + 1 \<and>
                        get_eval_score judge loads (h ! r) = Inr (h' ! new))"
    if "get_eval_score_heap judge loads h r = (res, h')" for h r res h'
    using that by (rule get_eval_score_heap_frame)
  have p4: "map_option deref (run_heap judge loads \<lparr>heap = h0, batch = init c refs\<rparr> evs)
            = run (get_eval_score judge loads) (init c (map ((!) h0) refs)) evs"
    if "list_all (\<lambda>r. r < length h0) refs"
    using run_deref [OF refs_in_init [OF that], of judge loads c evs]
    by (simp add: deref_init)
  have p5: "take (length h0) (heap hs) = h0 \<and>
              dataset (batch hs) = refs \<and>
              (\<forall>i<length refs. heap hs ! (refs ! i) = h0 ! (refs ! i)) \<and>
              (\<forall>i res. i < length refs \<and> tasks (batch hs) ! i = Done res \<longrightarrow>
                   length h0 \<le> res \<and> res < length (heap hs) \<and>
                   get_eval_score judge loads (h0 ! (refs ! i)) = Inr (heap hs ! res))"
    if valid: "list_all (\<lambda>r. r < length h0) refs"
      and r: "run_heap judge loads \<lparr>heap = h0, batch = init c refs\<rparr> evs = Some hs" for hs
  proof -
    from frame_run [OF r frame_init valid]
    have tk: "take (length h0) (heap hs) = h0" and dsq: "dataset (batch hs) = refs"
      and tr: "list_all2 (tracks_heap judge loads h0 (heap hs)) refs (tasks (batch hs))"
      by (simp_all add: frame_def)
    have same: "heap hs ! (refs ! i) = h0 ! (refs ! i)" if "i < length refs" for i
      using frame_read [OF tk] valid that by (simp add: list_all_length)
    have new: "length h0 \<le> res \<and> res < length (heap hs) \<and>
        get_eval_score judge loads (h0 ! (refs ! i)) = Inr (heap hs ! res)"
      if "i < length refs \<and> tasks (batch hs) ! i = Done res" for i res
    proof -
      from that have i: "i < length refs" and d: "tasks (batch hs) ! i = Done res"
        by simp_all
      from tr i
      have "tracks_heap judge loads h0 (heap hs) (refs ! i) (tasks (batch hs) ! i)"
        by (simp add: list_all2_conv_all_nth)
      with d show ?thesis by simp
    qed
    from tk dsq same new show ?thesis by blast
  qed
  from p1 p2 p3 p4 p5 show ?thesis by blast
qed

lemma get_eval_score_Inr:
  "get_eval_score judge loads sample = Inr result \<longleftrightarrow>
     (\<exists>q c a content members.
        sample ''question'' = Some q \<and> sample ''context'' = Some c \<and>
        sample ''answer'' = Some a \<and> judge q c a = Inr content \<and>
        loads content = Some (JObject members) \<and> result = sample ++ dict_of members)"
  by (auto simp: get_eval_score_def split: option.splits sum.splits json.splits)

text \<open>
  Claim C4. Whenever \<^verbatim>\<open>get_eval_score\<close> succeeds, the judge's reply decoded to an
  object, and the result is the sample's key-value pairs merged with the object's: on
  every key the object's value if it has one, the sample's otherwise.
\<close>

theorem score_result_is_merge:
  assumes "get_eval_score judge loads sample = Inr result"
  shows "\<exists>q c a content members.
        sample ''question'' = Some q \<and> sample ''context'' = Some c \<and>
        sample ''answer'' = Some a \<and> judge q c a = Inr content \<and>
        loads content = Some (JObject members) \<and>
        result = sample ++ dict_of members \<and>
        (\<forall>k. result k = (case dict_of members k of Some v \<Rightarrow> Some v | None \<Rightarrow> sample k))"
proof -
  from assms obtain q c a content members
    where h: "sample ''question'' = Some q" "sample ''context'' = Some c"
      "sample ''answer'' = Some a" "judge q c a = Inr content"
      "loads content = Some (JObject members)" "result = sample ++ dict_of members"
    unfolding get_eval_score_Inr by blast
  have "\<forall>k. result k = (case dict_of members k of Some v \<Rightarrow> Some v | None \<Rightarrow> sample k)"
    using h(6) by (simp add: map_add_def)
  with h show ?thesis by blast
qed

text \<open>
  Claim C3, as amended. For a sample with the three prompt fields and a judge that
  replies, \<^verbatim>\<open>get_eval_score\<close> fails when the reply is not valid JSON and when it is
  valid JSON but not an object. When the reply is an object the call succeeds with the
  merge, whichever members the object has: a missing \<^verbatim>\<open>"reasoning"\<close> or
  \<^verbatim>\<open>"total_score"\<close> is not a failure of this function.
\<close>

theorem get_eval_score_failures:
  assumes "sample ''question'' = Some q" and "sample ''context'' = Some c"
    and "sample ''answer'' = Some a" and "judge q c a = Inr content"
  shows "get_eval_score judge loads sample =
     (case loads content of
        None \<Rightarrow> Inl JSONDecodeError
      | Some (JObject members) \<Rightarrow> Inr (sample ++ dict_of members)
      | Some _ \<Rightarrow> Inl TypeError)"
  using assms by (simp add: get_eval_score_def)

section \<open>The properties on concrete runs\<close>

lemma score_Q:
  "get_eval_score (judge_replying reply_3) (decoder [(reply_3, JObject fields_3)]) sample_Q
     = Inr (sample_Q ++ dict_of fields_3)"
  by (simp add: get_eval_score_def judge_replying_def decoder_def sample_Q_def)

lemma score_R:
  "get_eval_score (judge_replying reply_3) (decoder [(reply_3, JObject fields_3)]) sample_R
     = Inr (sample_R ++ dict_of fields_3)"
  by (simp add: get_eval_score_def judge_replying_def decoder_def sample_R_def)

lemma run_QR:
  "limited_get_score (judge_replying reply_3) (decoder [(reply_3, JObject fields_3)])
       [sample_Q, sample_R] [Acquire 0, Acquire 1, Complete 1, Complete 0, Return]
     = Some \<lparr>dataset = [sample_Q, sample_R], sem = 5,
             tasks = [Done (sample_Q ++ dict_of fields_3), Done (sample_R ++ dict_of fields_3)],
             progress = 2, closed = True,
             outcome = Some (Inr [sample_Q ++ dict_of fields_3, sample_R ++ dict_of fields_3])\<rparr>"
  by (simp add: limited_get_score_def init_def max_concurrency_def score_Q score_R)

lemma quiescent_QR:
  "quiescent \<lparr>dataset = [sample_Q, sample_R], sem = 5,
             tasks = [Done (sample_Q ++ dict_of fields_3), Done (sample_R ++ dict_of fields_3)],
             progress = 2, closed = True,
             outcome = Some (Inr [sample_Q ++ dict_of fields_3, sample_R ++ dict_of fields_3])\<rparr>"
  by (simp add: quiescent_def enabled_def)

theorem score_result_is_merge_witness:
  "get_eval_score (judge_replying reply_3) (decoder [(reply_3, JObject fields_3)]) sample_Q
     = Inr [''question'' \<mapsto> JString ''Q'', ''context'' \<mapsto> JString ''C'',
            ''answer'' \<mapsto> JString ''A'', ''reasoning'' \<mapsto> JString ''...'',
            ''total_score'' \<mapsto> JInt 3]
   \<and> (\<exists>q c a content members.
        sample_Q ''question'' = Some q \<and> sample_Q ''context'' = Some c \<and>
        sample_Q ''answer'' = Some a \<and> judge_replying reply_3 q c a = Inr content \<and>
        decoder [(reply_3, JObject fields_3)] content = Some (JObject members) \<and>
        [''question'' \<mapsto> JString ''Q'', ''context'' \<mapsto> JString ''C'',
            ''answer'' \<mapsto> JString ''A'', ''reasoning'' \<mapsto> JString ''...'',
            ''total_score'' \<mapsto> JInt 3] = sample_Q ++ dict_of members \<and>
        (\<forall>k. [''question'' \<mapsto> JString ''Q'', ''context'' \<mapsto> JString ''C'',
            ''answer'' \<mapsto> JString ''A'', ''reasoning'' \<mapsto> JString ''...'',
            ''total_score'' \<mapsto> JInt 3] k
              = (case dict_of members k of Some v \<Rightarrow> Some v | None \<Rightarrow> sample_Q k)))"
proof -
  have h: "get_eval_score (judge_replying reply_3) (decoder [(reply_3, JObject fields_3)])
             sample_Q
     = Inr [''question'' \<mapsto> JString ''Q'', ''context'' \<mapsto> JString ''C'',
            ''answer'' \<mapsto> JString ''A'', ''reasoning'' \<mapsto> JString ''...'',
            ''total_score'' \<mapsto> JInt 3]"
    by (simp add: score_Q) (simp add: sample_Q_def fields_3_def dict_of_def)
  from score_result_is_merge [OF h] h show ?thesis by blast
qed

text \<open>
  Claim C3 as stated fails: a reply that is a valid object without \<^verbatim>\<open>"total_score"\<close>
  is merged into the sample and returned.
\<close>

theorem missing_field_is_no_failure:
  "get_eval_score (judge_replying reply_ok)
       (decoder [(reply_ok, JObject [(''reasoning'', JString ''ok'')])]) sample_Q
     = Inr (sample_Q(''reasoning'' \<mapsto> JString ''ok''))
   \<and> (sample_Q(''reasoning'' \<mapsto> JString ''ok'')) ''total_score'' = None"
  by (simp add: get_eval_score_def judge_replying_def decoder_def dict_of_def sample_Q_def)

theorem get_eval_score_failures_witness:
  "get_eval_score (judge_replying ''not json'') (decoder []) sample_Q = Inl JSONDecodeError
   \<and> get_eval_score (judge_replying ''[]'') (decoder [(''[]'', JArray [])]) sample_Q
       = Inl TypeError
   \<and> get_eval_score (judge_replying ''{}'') (decoder [(''{}'', JObject [])]) sample_Q
       = Inr sample_Q"
proof -
  have q: "sample_Q ''question'' = Some (JString ''Q'')"
    and c: "sample_Q ''context'' = Some (JString ''C'')"
    and a: "sample_Q ''answer'' = Some (JString ''A'')"
    by (simp_all add: sample_Q_def)
  have j: "judge_replying content (JString ''Q'') (JString ''C'') (JString ''A'') = Inr content"
    for content
    by (simp add: judge_replying_def)
  from get_eval_score_failures
      [where judge = "judge_replying ''not json''" and loads = "decoder []", OF q c a j]
    get_eval_score_failures
      [where judge = "judge_replying ''[]''" and loads = "decoder [(''[]'', JArray [])]",
       OF q c a j]
    get_eval_score_failures
      [where judge = "judge_replying ''{}''" and loads = "decoder [(''{}'', JObject [])]",
       OF q c a j]
  show ?thesis
    by (simp add: decoder_def dict_of_def)
qed

lemma fail_Q:
  "get_eval_score (judge_failing_on (JString ''R'') reply_3)
      (decoder [(reply_3, JObject fields_3)]) sample_Q
     = Inr (sample_Q ++ dict_of fields_3)"
  by (simp add: get_eval_score_def judge_failing_on_def decoder_def sample_Q_def)

lemma fail_R:
  "get_eval_score (judge_failing_on (JString ''R'') reply_3)
      (decoder [(reply_3, JObject fields_3)]) sample_R
     = Inl (ClientError ''timeout'')"
  by (simp add: get_eval_score_def judge_failing_on_def decoder_def sample_R_def)

theorem in_flight_never_exceeds_limit_witness:
  "\<exists>s. limited_get_score (judge_replying reply_3) (decoder [(reply_3, JObject fields_3)])
          [sample_Q, sample_R, sample_Q, sample_R, sample_Q, sample_R]
          [Acquire 0, Acquire 1, Acquire 2, Acquire 3, Acquire 4] = Some s
      \<and> in_flight s = 5 \<and> in_flight s \<le> max_concurrency
      \<and> step (get_eval_score (judge_replying reply_3) (decoder [(reply_3, JObject fields_3)]))
           s (Acquire 5) = None"
proof -
  have "\<exists>s. limited_get_score (judge_replying reply_3) (decoder [(reply_3, JObject fields_3)])
          [sample_Q, sample_R, sample_Q, sample_R, sample_Q, sample_R]
          [Acquire 0, Acquire 1, Acquire 2, Acquire 3, Acquire 4] = Some s
      \<and> in_flight s = 5
      \<and> step (get_eval_score (judge_replying reply_3) (decoder [(reply_3, JObject fields_3)]))
           s (Acquire 5) = None"
    by (simp add: limited_get_score_def init_def max_concurrency_def in_flight_def)
  then obtain s
    where r: "limited_get_score (judge_replying reply_3)
          (decoder [(reply_3, JObject fields_3)])
          [sample_Q, sample_R, sample_Q, sample_R, sample_Q, sample_R]
          [Acquire 0, Acquire 1, Acquire 2, Acquire 3, Acquire 4] = Some s"
      and f: "in_flight s = 5"
      and n: "step (get_eval_score (judge_replying reply_3)
           (decoder [(reply_3, JObject fields_3)])) s (Acquire 5) = None"
    by blast
  from in_flight_never_exceeds_limit [OF r [unfolded limited_get_score_def]]
  have "in_flight s \<le> max_concurrency" by (rule conjunct1)
  with r f n show ?thesis by blast
qed

theorem limited_get_score_returns_every_item_witness:
  "\<exists>s rs. limited_get_score (judge_replying reply_3) (decoder [(reply_3, JObject fields_3)])
          [sample_Q, sample_R] [Acquire 0, Acquire 1, Complete 1, Complete 0, Return] = Some s
      \<and> quiescent s \<and> outcome s = Some (Inr rs) \<and> length rs = 2
      \<and> mset (map Inr rs) =
          mset (map (get_eval_score (judge_replying reply_3)
                       (decoder [(reply_3, JObject fields_3)])) [sample_Q, sample_R])
      \<and> mset (map (\<lambda>r. r ''question'') rs) = {#Some (JString ''Q''), Some (JString ''R'')#}"
proof -
  let ?score = "get_eval_score (judge_replying reply_3) (decoder [(reply_3, JObject fields_3)])"
  let ?S = "\<lparr>dataset = [sample_Q, sample_R], sem = 5,
             tasks = [Done (sample_Q ++ dict_of fields_3), Done (sample_R ++ dict_of fields_3)],
             progress = 2, closed = True,
             outcome = Some (Inr [sample_Q ++ dict_of fields_3, sample_R ++ dict_of fields_3])\<rparr>"
  have c: "1 \<le> max_concurrency" by (simp add: max_concurrency_def)
  have ok: "list_all (\<lambda>x. \<not> isl (?score x)) [sample_Q, sample_R]"
    by (simp add: score_Q score_R)
  have thru: "\<forall>x\<in>set [sample_Q, sample_R]. \<forall>r. ?score x = Inr r \<longrightarrow>
      r ''question'' = x ''question''"
  proof -
    have "(x ++ dict_of fields_3) ''question'' = x ''question''" for x :: sample
      by (simp add: dict_of_def fields_3_def map_add_def)
    then show ?thesis by (auto simp: score_Q score_R)
  qed
  note r = run_QR [unfolded limited_get_score_def]
  note here = limited_get_score_returns_every_item [OF c, THEN spec, THEN spec, THEN mp, OF r]
  note results = here [THEN conjunct2, THEN conjunct2, THEN conjunct1]
  note returns = here [THEN conjunct2, THEN conjunct2, THEN conjunct2, THEN mp,
      OF conjI [OF quiescent_QR ok]]
  from returns obtain rs where rs: "outcome ?S = Some (Inr rs)" ..
  note of_rs = results [THEN spec, THEN mp, OF rs]
  from of_rs have l2: "length rs = 2" by simp
  note ms = of_rs [THEN conjunct2, THEN conjunct1]
  from of_rs [THEN conjunct2, THEN conjunct2, THEN spec, THEN mp, OF thru]
  have q: "mset (map (\<lambda>r. r ''question'') rs) = {#Some (JString ''Q''), Some (JString ''R'')#}"
    by (simp add: sample_Q_def sample_R_def)
  show ?thesis
    by (intro exI conjI) (rule run_QR quiescent_QR rs l2 ms q)+
qed

theorem limited_get_score_submission_order_witness:
  "\<exists>s rs. limited_get_score (judge_replying reply_3) (decoder [(reply_3, JObject fields_3)])
          [sample_Q, sample_R] [Acquire 0, Acquire 1, Complete 1, Complete 0, Return] = Some s
      \<and> quiescent s \<and> outcome s = Some (Inr rs) \<and> length rs = 2
      \<and> get_eval_score (judge_replying reply_3) (decoder [(reply_3, JObject fields_3)])
           sample_Q = Inr (rs ! 0)
      \<and> get_eval_score (judge_replying reply_3) (decoder [(reply_3, JObject fields_3)])
           sample_R = Inr (rs ! 1)"
proof -
  have c: "1 \<le> max_concurrency" by (simp add: max_concurrency_def)
  have ok: "list_all (\<lambda>x. \<not> isl (get_eval_score (judge_replying reply_3)
                (decoder [(reply_3, JObject fields_3)]) x)) [sample_Q, sample_R]"
    by (simp add: score_Q score_R)
  let ?S = "\<lparr>dataset = [sample_Q, sample_R], sem = 5,
             tasks = [Done (sample_Q ++ dict_of fields_3), Done (sample_R ++ dict_of fields_3)],
             progress = 2, closed = True,
             outcome = Some (Inr [sample_Q ++ dict_of fields_3, sample_R ++ dict_of fields_3])\<rparr>"
  note r = run_QR [unfolded limited_get_score_def]
  from limited_get_score_submission_order [OF c ok r quiescent_QR]
  obtain rs where rs: "outcome ?S = Some (Inr rs)"
    and len: "length rs = length [sample_Q, sample_R]"
    and pos: "\<forall>i<length [sample_Q, sample_R].
        get_eval_score (judge_replying reply_3) (decoder [(reply_3, JObject fields_3)])
          ([sample_Q, sample_R] ! i) = Inr (rs ! i)"
    by blast
  from pos have p0: "get_eval_score (judge_replying reply_3)
           (decoder [(reply_3, JObject fields_3)]) sample_Q = Inr (rs ! 0)"
    and p1: "get_eval_score (judge_replying reply_3)
           (decoder [(reply_3, JObject fields_3)]) sample_R = Inr (rs ! 1)"
    by (auto simp: nth_Cons')
  from len have l2: "length rs = 2" by simp
  show ?thesis
    by (intro exI conjI) (rule run_QR quiescent_QR rs l2 p0 p1)+
qed

lemma run_fail:
  "limited_get_score (judge_failing_on (JString ''R'') reply_3)
       (decoder [(reply_3, JObject fields_3)])
       [sample_Q, sample_R] [Acquire 0, Acquire 1, Complete 1, Complete 0]
     = Some \<lparr>dataset = [sample_Q, sample_R], sem = 5,
             tasks = [Done (sample_Q ++ dict_of fields_3), Failed (ClientError ''timeout'')],
             progress = 1, closed = False,
             outcome = Some (Inl (ClientError ''timeout''))\<rparr>"
  by (simp add: limited_get_score_def init_def max_concurrency_def fail_Q fail_R)

lemma quiescent_fail:
  "quiescent \<lparr>dataset = [sample_Q, sample_R], sem = 5,
             tasks = [Done (sample_Q ++ dict_of fields_3), Failed (ClientError ''timeout'')],
             progress = 1, closed = False,
             outcome = Some (Inl (ClientError ''timeout''))\<rparr>"
  by (simp add: quiescent_def enabled_def)

theorem limited_get_score_fails_as_a_whole_witness:
  "\<exists>s. limited_get_score (judge_failing_on (JString ''R'') reply_3)
          (decoder [(reply_3, JObject fields_3)])
          [sample_Q, sample_R] [Acquire 0, Acquire 1, Complete 1, Complete 0] = Some s
      \<and> quiescent s
      \<and> outcome s = Some (Inl (ClientError ''timeout''))
      \<and> (\<exists>j e. j < length [sample_Q, sample_R]
            \<and> get_eval_score (judge_failing_on (JString ''R'') reply_3)
                 (decoder [(reply_3, JObject fields_3)]) ([sample_Q, sample_R] ! j) = Inl e
            \<and> outcome s = Some (Inl e))"
proof -
  let ?S = "\<lparr>dataset = [sample_Q, sample_R], sem = 5,
             tasks = [Done (sample_Q ++ dict_of fields_3), Failed (ClientError ''timeout'')],
             progress = 1, closed = False,
             outcome = Some (Inl (ClientError ''timeout''))\<rparr>"
  have c: "1 \<le> max_concurrency" by (simp add: max_concurrency_def)
  have i: "1 < length [sample_Q, sample_R]" by simp
  have f: "get_eval_score (judge_failing_on (JString ''R'') reply_3)
      (decoder [(reply_3, JObject fields_3)]) ([sample_Q, sample_R] ! 1)
     = Inl (ClientError ''timeout'')"
    by (simp add: fail_R)
  note r = run_fail [unfolded limited_get_score_def]
  note every = conjunct2 [OF limited_get_score_fails_as_a_whole
      [where score = "get_eval_score (judge_failing_on (JString ''R'') reply_3)
          (decoder [(reply_3, JObject fields_3)])"
        and ds = "[sample_Q, sample_R]" and i = 1, OF c i f]]
  note here = every [rule_format, OF r]
  note at_rest = conjunct2 [OF conjunct2 [OF here], THEN mp, OF quiescent_fail]
  have o: "outcome ?S = Some (Inl (ClientError ''timeout''))" by simp
  show ?thesis
    apply (rule exI [where x = ?S])
    apply (intro conjI)
       apply (rule run_fail quiescent_fail o at_rest)+
    done
qed



lemma run_one_done:
  "limited_get_score (judge_replying reply_3) (decoder [(reply_3, JObject fields_3)])
       [sample_Q, sample_R] [Acquire 0, Acquire 1, Complete 1]
     = Some \<lparr>dataset = [sample_Q, sample_R], sem = 4,
             tasks = [Running sample_Q, Done (sample_R ++ dict_of fields_3)],
             progress = 1, closed = False, outcome = None\<rparr>"
  by (simp add: limited_get_score_def init_def max_concurrency_def score_R)

theorem progress_counts_successful_completions_witness:
  "\<exists>s s'. limited_get_score (judge_replying reply_3) (decoder [(reply_3, JObject fields_3)])
          [sample_Q, sample_R] [Acquire 0, Acquire 1, Complete 1] = Some s
      \<and> progress s = 1
      \<and> progress s = length (filter is_Done (tasks s))
      \<and> step (get_eval_score (judge_replying reply_3) (decoder [(reply_3, JObject fields_3)]))
           s (Complete 0) = Some s'
      \<and> progress s' = progress s + 1"
proof -
  let ?S = "\<lparr>dataset = [sample_Q, sample_R], sem = 4,
             tasks = [Running sample_Q, Done (sample_R ++ dict_of fields_3)],
             progress = 1, closed = False, outcome = None\<rparr>"
  let ?S' = "\<lparr>dataset = [sample_Q, sample_R], sem = 5,
             tasks = [Done (sample_Q ++ dict_of fields_3), Done (sample_R ++ dict_of fields_3)],
             progress = 2, closed = False, outcome = None\<rparr>"
  note r = run_one_done [unfolded limited_get_score_def]
  note all = progress_counts_successful_completions [OF r]
  note counts = conjunct1 [OF all]
  have st: "step (get_eval_score (judge_replying reply_3)
                 (decoder [(reply_3, JObject fields_3)])) ?S (Complete 0) = Some ?S'"
    by (simp add: score_Q)
  note change = conjunct1 [OF conjunct2 [OF conjunct2 [OF all]], rule_format, OF st]
  from change have adv: "progress ?S' = progress ?S + 1"
    by (simp add: score_Q)
  have p1: "progress ?S = 1" by simp
  show ?thesis
    apply (rule exI [where x = ?S])
    apply (rule exI [where x = ?S'])
    apply (intro conjI)
        apply (rule run_one_done p1 counts st adv)+
    done
qed

theorem empty_dataset_returns_at_once_witness:
  "\<exists>s. limited_get_score (judge_replying reply_3) (decoder [(reply_3, JObject fields_3)])
          [] [Return] = Some s
      \<and> quiescent s \<and> outcome s = Some (Inr []) \<and> closed s
      \<and> sem s = max_concurrency \<and> in_flight s = 0 \<and> progress s = 0"
proof -
  let ?S = "\<lparr>dataset = ([] :: sample list), sem = max_concurrency,
             tasks = ([] :: (sample, sample) status list),
             progress = 0, closed = True, outcome = Some (Inr [])\<rparr>"
  note all = empty_dataset_returns_at_once
    [where score = "get_eval_score (judge_replying reply_3)
        (decoder [(reply_3, JObject fields_3)])" and c = max_concurrency]
  note r = conjunct1 [OF conjunct2 [OF all]]
  note q = conjunct1 [OF conjunct2 [OF conjunct2 [OF all]]]
  note every = conjunct2 [OF conjunct2 [OF conjunct2 [OF all]], rule_format, OF r]
  have o: "outcome ?S = Some (Inr [])" and cl: "closed ?S" by simp_all
  show ?thesis
    unfolding limited_get_score_def
    apply (rule exI [where x = ?S])
    apply (intro conjI)
          apply (rule r q o cl every [THEN conjunct2, THEN conjunct1]
            every [THEN conjunct2, THEN conjunct2, THEN conjunct1]
            every [THEN conjunct2, THEN conjunct2, THEN conjunct2])+
    done
qed

lemma run_heap_one_done:
  "limited_get_score_heap (judge_replying reply_3) (decoder [(reply_3, JObject fields_3)])
       [sample_Q, sample_R] [0, 1] [Acquire 0, Acquire 1, Complete 1]
     = Some \<lparr>heap = [sample_Q, sample_R, sample_R ++ dict_of fields_3],
             batch = \<lparr>dataset = [0, 1], sem = 4, tasks = [Running 0, Done 2],
                      progress = 1, closed = False, outcome = None\<rparr>\<rparr>"
  by (simp add: limited_get_score_heap_def step_heap_def init_def max_concurrency_def
      get_eval_score_heap_pure score_R)

lemma call_heap_Q:
  "get_eval_score_heap (judge_replying reply_3) (decoder [(reply_3, JObject fields_3)])
       [sample_Q] 0
     = (Inr 1, [sample_Q, sample_Q ++ dict_of fields_3])"
  by (simp add: get_eval_score_heap_pure score_Q)

theorem items_pass_through_unmodified_witness:
  "run (get_eval_score (judge_replying reply_3) (decoder [(reply_3, JObject fields_3)]) \<circ> fst)
       (init max_concurrency (map (\<lambda>x. (x, True)) [sample_Q, sample_R]))
       [Acquire 0, Acquire 1, Complete 1]
     = map_option (relabel (\<lambda>x. (x, True)))
         (limited_get_score (judge_replying reply_3) (decoder [(reply_3, JObject fields_3)])
            [sample_Q, sample_R] [Acquire 0, Acquire 1, Complete 1])
   \<and> (\<exists>s. limited_get_score (judge_replying reply_3) (decoder [(reply_3, JObject fields_3)])
            [sample_Q, sample_R] [Acquire 0, Acquire 1, Complete 1] = Some s
        \<and> dataset s = [sample_Q, sample_R]
        \<and> tasks s = [Running sample_Q, Done (sample_R ++ dict_of fields_3)])
   \<and> (\<exists>new h'. get_eval_score_heap (judge_replying reply_3)
            (decoder [(reply_3, JObject fields_3)]) [sample_Q] 0 = (Inr new, h')
        \<and> take 1 h' = [sample_Q] \<and> new = 1 \<and> length h' = 2
        \<and> get_eval_score (judge_replying reply_3) (decoder [(reply_3, JObject fields_3)])
             sample_Q = Inr (h' ! new))
   \<and> map_option deref
        (limited_get_score_heap (judge_replying reply_3)
           (decoder [(reply_3, JObject fields_3)])
           [sample_Q, sample_R] [0, 1] [Acquire 0, Acquire 1, Complete 1])
      = limited_get_score (judge_replying reply_3) (decoder [(reply_3, JObject fields_3)])
          [sample_Q, sample_R] [Acquire 0, Acquire 1, Complete 1]
   \<and> (\<exists>hs. limited_get_score_heap (judge_replying reply_3)
            (decoder [(reply_3, JObject fields_3)])
            [sample_Q, sample_R] [0, 1] [Acquire 0, Acquire 1, Complete 1] = Some hs
        \<and> take 2 (heap hs) = [sample_Q, sample_R]
        \<and> dataset (batch hs) = [0, 1]
        \<and> heap hs ! 1 = sample_R
        \<and> tasks (batch hs) ! 1 = Done 2
        \<and> 2 < length (heap hs)
        \<and> get_eval_score (judge_replying reply_3) (decoder [(reply_3, JObject fields_3)])
             sample_R = Inr (heap hs ! 2))"
proof -
  let ?J = "judge_replying reply_3"
  let ?L = "decoder [(reply_3, JObject fields_3)]"
  let ?S = "\<lparr>dataset = [sample_Q, sample_R], sem = 4,
             tasks = [Running sample_Q, Done (sample_R ++ dict_of fields_3)],
             progress = 1, closed = False, outcome = None\<rparr>"
  let ?H = "\<lparr>heap = [sample_Q, sample_R, sample_R ++ dict_of fields_3],
             batch = \<lparr>dataset = [0, 1], sem = 4, tasks = [Running 0, Done 2],
                      progress = 1, closed = False, outcome = None\<rparr>\<rparr>"
  have same: "(get_eval_score ?J ?L \<circ> fst) (x, True) = get_eval_score ?J ?L x" for x
    by simp
  note all = items_pass_through_unmodified
    [where score' = "get_eval_score ?J ?L \<circ> fst" and f = "\<lambda>x. (x, True)"
      and score = "get_eval_score ?J ?L"
      and c = max_concurrency and ds = "[sample_Q, sample_R]"
      and evs = "[Acquire 0, Acquire 1, Complete 1]"
      and judge = ?J and loads = ?L
      and ?h0.0 = "[sample_Q, sample_R]" and refs = "[0, 1]", OF same]
  note a1 = all [THEN conjunct1]
  note a2 = all [THEN conjunct2, THEN conjunct1]
  note a3 = all [THEN conjunct2, THEN conjunct2, THEN conjunct1]
  note a4 = all [THEN conjunct2, THEN conjunct2, THEN conjunct2]
  \<comment> \<open>the value-level run\<close>
  note r = run_one_done [unfolded limited_get_score_def]
  note kept = a2 [rule_format, OF r, THEN conjunct1]
  have t: "tasks ?S = [Running sample_Q, Done (sample_R ++ dict_of fields_3)]" by simp
  have c2: "\<exists>s. limited_get_score ?J ?L [sample_Q, sample_R]
            [Acquire 0, Acquire 1, Complete 1] = Some s
        \<and> dataset s = [sample_Q, sample_R]
        \<and> tasks s = [Running sample_Q, Done (sample_R ++ dict_of fields_3)]"
    unfolding limited_get_score_def
    apply (rule exI [where x = ?S])
    apply (intro conjI)
      apply (rule r kept t)+
    done
  \<comment> \<open>one call on the store\<close>
  from a3 [THEN spec, THEN spec, THEN spec, THEN spec, THEN mp, OF call_heap_Q]
  have c3: "\<exists>new h'. get_eval_score_heap ?J ?L [sample_Q] 0 = (Inr new, h')
        \<and> take 1 h' = [sample_Q] \<and> new = 1 \<and> length h' = 2
        \<and> get_eval_score ?J ?L sample_Q = Inr (h' ! new)"
    by (simp add: call_heap_Q)
  \<comment> \<open>the run on the store\<close>
  have valid: "list_all (\<lambda>r. r < length [sample_Q, sample_R]) [0, 1]" by simp
  note b = a4 [THEN mp, OF valid]
  note rh = run_heap_one_done [unfolded limited_get_score_heap_def]
  from b [THEN conjunct1]
  have c4: "map_option deref (limited_get_score_heap ?J ?L
           [sample_Q, sample_R] [0, 1] [Acquire 0, Acquire 1, Complete 1])
      = limited_get_score ?J ?L [sample_Q, sample_R] [Acquire 0, Acquire 1, Complete 1]"
    by (simp add: limited_get_score_heap_def limited_get_score_def)
  note fr = b [THEN conjunct2, THEN spec, THEN mp, OF rh]
  from fr have h1: "take 2 (heap ?H) = [sample_Q, sample_R]" by simp
  from fr have h2: "dataset (batch ?H) = [0, 1]" by simp
  have i1: "1 < length [0::nat, 1]" by simp
  from fr [THEN conjunct2, THEN conjunct2, THEN conjunct1, THEN spec, THEN mp, OF i1]
  have h3: "heap ?H ! 1 = sample_R" by simp
  have h4: "tasks (batch ?H) ! 1 = Done 2" by simp
  have d: "1 < length [0::nat, 1] \<and> tasks (batch ?H) ! 1 = Done 2" by simp
  note res = fr [THEN conjunct2, THEN conjunct2, THEN conjunct2, THEN spec, THEN spec,
      THEN mp, OF d]
  from res have h5: "2 < length (heap ?H)" by simp
  from res have h6: "get_eval_score ?J ?L sample_R = Inr (heap ?H ! 2)" by simp
  have c5: "\<exists>hs. limited_get_score_heap ?J ?L
            [sample_Q, sample_R] [0, 1] [Acquire 0, Acquire 1, Complete 1] = Some hs
        \<and> take 2 (heap hs) = [sample_Q, sample_R]
        \<and> dataset (batch hs) = [0, 1]
        \<and> heap hs ! 1 = sample_R
        \<and> tasks (batch hs) ! 1 = Done 2
        \<and> 2 < length (heap hs)
        \<and> get_eval_score ?J ?L sample_R = Inr (heap hs ! 2)"
    apply (rule exI [where x = ?H])
    apply (intro conjI)
          apply (rule run_heap_one_done h1 h2 h3 h4 h5 h6)+
    done
  from a1 have c1: "run (get_eval_score ?J ?L \<circ> fst)
       (init max_concurrency (map (\<lambda>x. (x, True)) [sample_Q, sample_R]))
       [Acquire 0, Acquire 1, Complete 1]
     = map_option (relabel (\<lambda>x. (x, True)))
         (limited_get_score ?J ?L [sample_Q, sample_R] [Acquire 0, Acquire 1, Complete 1])"
    unfolding limited_get_score_def .
  show ?thesis
    apply (rule conjI [OF c1])
    apply (rule conjI [OF c2])
    apply (rule conjI [OF c3])
    apply (rule conjI [OF c4])
    apply (rule c5)
    done
qed

end
